theory Spec2Isabelle
  imports Main "HOL-Library.Word"
begin

unbundle bit_operations_syntax

section \<open>Bytes and big-endian 32-bit fields\<close>

text \<open>
  Go's \<^verbatim>\<open>[]byte\<close> is a list of 8-bit words, and a Go \<^verbatim>\<open>string\<close> (the key type of the
  in-memory table) is the same sequence of bytes, so the conversions \<^verbatim>\<open>[]byte(key)\<close> and
  \<^verbatim>\<open>string(b)\<close> are the identity here. \<^verbatim>\<open>uint32\<close> is a 32-bit word; \<^verbatim>\<open>int\<close> is taken to
  be 64 bits wide, so that the offsets computed while decoding (all below \<open>2 ^ 33\<close> plus
  the length of a slice) never overflow and are natural numbers.
\<close>

type_synonym byte = "8 word"
type_synonym bytes = "byte list"
type_synonym uint32 = "32 word"

text \<open>\<^verbatim>\<open>binary.BigEndian.PutUint32\<close>: the four bytes of \<open>v\<close>, most significant first.\<close>

definition PutUint32 :: "uint32 \<Rightarrow> bytes" where
  "PutUint32 v = [ucast (drop_bit 24 v), ucast (drop_bit 16 v), ucast (drop_bit 8 v), ucast v]"

text \<open>
  \<^verbatim>\<open>binary.BigEndian.Uint32\<close> reads the first four bytes of its argument. Go panics on a
  shorter slice; every call in the program is on a slice of exactly four bytes, cut out
  after a check of the length, so the other case is left open.
\<close>

fun Uint32 :: "bytes \<Rightarrow> uint32" where
  "Uint32 (b0 # b1 # b2 # b3 # rest) =
     ucast b3 OR push_bit 8 (ucast b2) OR push_bit 16 (ucast b1) OR push_bit 24 (ucast b0)"

text \<open>The slice expression \<^verbatim>\<open>b[lo:hi]\<close>, used by the program only with \<open>lo \<le> hi \<le> len(b)\<close>.\<close>

definition subslice :: "bytes \<Rightarrow> nat \<Rightarrow> nat \<Rightarrow> bytes" where
  "subslice b lo hi = take (hi - lo) (drop lo b)"

section \<open>CRC-32 (IEEE)\<close>

text \<open>
  \<^verbatim>\<open>crc32.ChecksumIEEE\<close> of Go's standard library, in its table-driven form: the table
  entry of a byte is eight shift-and-xor steps with the reflected polynomial
  \<open>0xEDB88320\<close>, and the checksum is folded over the bytes between two complements.
\<close>

definition IEEE :: uint32 where
  "IEEE = 0xEDB88320"

definition crc_shift :: "uint32 \<Rightarrow> uint32" where
  "crc_shift crc = (if crc AND 1 = 1 then drop_bit 1 crc XOR IEEE else drop_bit 1 crc)"

definition IEEETable :: "byte \<Rightarrow> uint32" where
  "IEEETable i = (crc_shift ^^ 8) (ucast i)"

definition crc_update :: "uint32 \<Rightarrow> byte \<Rightarrow> uint32" where
  "crc_update crc v = IEEETable (ucast crc XOR v) XOR drop_bit 8 crc"

definition ChecksumIEEE :: "bytes \<Rightarrow> uint32" where
  "ChecksumIEEE p = NOT (foldl crc_update (NOT 0) p)"

section \<open>Entry codec (\<^verbatim>\<open>kv/log.go\<close>)\<close>

definition OpSet :: byte where
  "OpSet = 1"

definition OpDel :: byte where
  "OpDel = 2"

text \<open>\<^verbatim>\<open>uint32(len(b))\<close> keeps the low 32 bits of the length.\<close>

definition len32 :: "bytes \<Rightarrow> uint32" where
  "len32 b = word_of_nat (length b)"

definition buildSetPayload :: "bytes \<Rightarrow> bytes \<Rightarrow> bytes" where
  "buildSetPayload key val =
     [OpSet] @ PutUint32 (len32 key) @ key @ PutUint32 (len32 val) @ val"

definition buildDelPayload :: "bytes \<Rightarrow> bytes" where
  "buildDelPayload key = [OpDel] @ PutUint32 (len32 key) @ key"

text \<open>
  The errors of the program: the sentinel errors of \<^verbatim>\<open>io\<close> and \<^verbatim>\<open>os\<close>, any other failure
  of a system call, and the errors built with \<^verbatim>\<open>fmt.Errorf\<close> while replaying, as the format and
  its arguments.
\<close>

datatype error = EOF | ErrUnexpectedEOF | ErrClosed | ErrExist | ErrNotExist | IOError
  | Errorf string "nat list"

text \<open>
  The two kinds of record that the replay loop of \<^verbatim>\<open>NewKV\<close> tells apart by the first byte
  of a payload.
\<close>

datatype entry = SetRecord bytes bytes | DeleteRecord bytes

text \<open>
  The body of the \<^verbatim>\<open>switch\<close> in the replay loop, up to the update of the table: the key
  (and value) it cuts out of a non-empty payload, or the error it returns.
\<close>

definition decode :: "bytes \<Rightarrow> error + entry" where
  "decode payload =
     (if payload ! 0 = OpSet then
        (let off = 1 in
         if off + 4 > length payload then Inl (Errorf ''malformed set entry'' [])
         else
           let klen = unat (Uint32 (subslice payload off (off + 4))); off = off + 4 in
           if off + klen > length payload then Inl (Errorf ''malformed set entry key'' [])
           else
             let key = subslice payload off (off + klen); off = off + klen in
             if off + 4 > length payload then Inl (Errorf ''malformed set entry value length'' [])
             else
               let vlen = unat (Uint32 (subslice payload off (off + 4))); off = off + 4 in
               if off + vlen > length payload then Inl (Errorf ''malformed set entry value'' [])
               else Inr (SetRecord key (subslice payload off (off + vlen))))
      else if payload ! 0 = OpDel then
        (let off = 1 in
         if off + 4 > length payload then Inl (Errorf ''malformed del entry'' [])
         else
           let klen = unat (Uint32 (subslice payload off (off + 4))); off = off + 4 in
           if off + klen > length payload then Inl (Errorf ''malformed del entry key'' [])
           else Inr (DeleteRecord (subslice payload off (off + klen))))
      else Inl (Errorf ''unknown entry type %d'' [unat (payload ! 0)]))"

section \<open>Files and system calls\<close>

text \<open>
  The part of the operating system that the program touches. A directory maps a path to
  an inode, an inode holds the bytes of a file, and an open file (\<^verbatim>\<open>*os.File\<close>) is a
  descriptor number whose inode, offset and append mode are kept by the system, so that
  renaming or removing a path does not touch the files that are open. Access modes,
  permissions, and the directories themselves are not modelled.

  Every call into the system takes the next entry of a schedule of faults: \<open>None\<close> lets
  the call through, \<open>Some n\<close> makes it fail (a failing write has written \<open>n\<close> bytes, as far
  as it has that many). An empty schedule means that nothing fails any more.
\<close>

type_synonym path = string

record descr =
  dino :: nat
  dpos :: nat
  dappend :: bool

record world =
  names :: "path \<rightharpoonup> nat"
  inodes :: "nat \<Rightarrow> bytes"
  fds :: "nat \<rightharpoonup> descr"
  nextino :: nat
  nextfd :: nat
  faults :: "nat option list"

definition contents :: "world \<Rightarrow> path \<Rightarrow> bytes option" where
  "contents w name = map_option (inodes w) (names w name)"

definition syscall :: "world \<Rightarrow> nat option \<times> world" where
  "syscall w = (case faults w of [] \<Rightarrow> (None, w) | flt # rest \<Rightarrow> (flt, w\<lparr>faults := rest\<rparr>))"

record flags =
  O_CREATE :: bool
  O_EXCL :: bool
  O_TRUNC :: bool
  O_APPEND :: bool

definition newfd :: "world \<Rightarrow> nat \<Rightarrow> bool \<Rightarrow> nat \<times> world" where
  "newfd w ino app =
     (nextfd w, w\<lparr>fds := (fds w)(nextfd w \<mapsto> \<lparr>dino = ino, dpos = 0, dappend = app\<rparr>),
                  nextfd := Suc (nextfd w)\<rparr>)"

definition OpenFile :: "world \<Rightarrow> path \<Rightarrow> flags \<Rightarrow> (error + nat) \<times> world" where
  "OpenFile w name fl =
     (case syscall w of
        (Some n, w1) \<Rightarrow> (Inl IOError, w1)
      | (None, w1) \<Rightarrow>
          (case names w1 name of
             None \<Rightarrow>
               if O_CREATE fl then
                 (case newfd (w1\<lparr>names := (names w1)(name \<mapsto> nextino w1),
                                  inodes := (inodes w1)(nextino w1 := []),
                                  nextino := Suc (nextino w1)\<rparr>) (nextino w1) (O_APPEND fl) of
                    (f, w2) \<Rightarrow> (Inr f, w2))
               else (Inl ErrNotExist, w1)
           | Some ino \<Rightarrow>
               if O_CREATE fl \<and> O_EXCL fl then (Inl ErrExist, w1)
               else
                 (case newfd (if O_TRUNC fl then w1\<lparr>inodes := (inodes w1)(ino := [])\<rparr> else w1)
                         ino (O_APPEND fl) of
                    (f, w2) \<Rightarrow> (Inr f, w2))))"

text \<open>
  \<^verbatim>\<open>f.Write(b)\<close>: at the end of the file in append mode, at the offset otherwise (a gap
  before the offset would be filled with zeros).
\<close>

definition Write :: "world \<Rightarrow> nat \<Rightarrow> bytes \<Rightarrow> error option \<times> world" where
  "Write w f b =
     (case fds w f of
        None \<Rightarrow> (Some ErrClosed, w)
      | Some d \<Rightarrow>
          (case syscall w of
             (flt, w1) \<Rightarrow>
               let c = inodes w1 (dino d);
                   pos = (if dappend d then length c else dpos d);
                   b' = (case flt of None \<Rightarrow> b | Some n \<Rightarrow> take n b);
                   c' = take pos (c @ replicate (pos - length c) 0) @ b' @ drop (pos + length b') c
               in ((case flt of None \<Rightarrow> None | Some n \<Rightarrow> Some IOError),
                   w1\<lparr>inodes := (inodes w1)(dino d := c'),
                      fds := (fds w1)(f \<mapsto> d\<lparr>dpos := pos + length b'\<rparr>)\<rparr>)))"

definition Sync :: "world \<Rightarrow> nat \<Rightarrow> error option \<times> world" where
  "Sync w f =
     (case fds w f of
        None \<Rightarrow> (Some ErrClosed, w)
      | Some d \<Rightarrow>
          (case syscall w of
             (Some n, w1) \<Rightarrow> (Some IOError, w1)
           | (None, w1) \<Rightarrow> (None, w1)))"

text \<open>\<^verbatim>\<open>f.Close()\<close> gives the descriptor up even when it reports an error.\<close>

definition Close :: "world \<Rightarrow> nat \<Rightarrow> error option \<times> world" where
  "Close w f =
     (case fds w f of
        None \<Rightarrow> (Some ErrClosed, w)
      | Some d \<Rightarrow>
          (case syscall w of
             (flt, w1) \<Rightarrow>
               ((case flt of None \<Rightarrow> None | Some n \<Rightarrow> Some IOError),
                w1\<lparr>fds := (fds w1)(f := None)\<rparr>)))"

text \<open>\<^verbatim>\<open>f.Seek(0, 2)\<close>: the offset becomes the length of the file.\<close>

definition SeekEnd :: "world \<Rightarrow> nat \<Rightarrow> error option \<times> world" where
  "SeekEnd w f =
     (case fds w f of
        None \<Rightarrow> (Some ErrClosed, w)
      | Some d \<Rightarrow>
          (case syscall w of
             (Some n, w1) \<Rightarrow> (Some IOError, w1)
           | (None, w1) \<Rightarrow>
               (None, w1\<lparr>fds := (fds w1)(f \<mapsto> d\<lparr>dpos := length (inodes w1 (dino d))\<rparr>)\<rparr>)))"

text \<open>
  \<^verbatim>\<open>io.ReadFull(f, buf)\<close> with \<open>len(buf) = n\<close>: nothing is read for an empty buffer;
  otherwise \<^verbatim>\<open>io.EOF\<close> when no byte is left, \<^verbatim>\<open>io.ErrUnexpectedEOF\<close> when fewer than \<open>n\<close>
  are, and the next \<open>n\<close> bytes when they are there.
\<close>

definition ReadFull :: "world \<Rightarrow> nat \<Rightarrow> nat \<Rightarrow> (error + bytes) \<times> world" where
  "ReadFull w f n =
     (if n = 0 then (Inr [], w)
      else
        (case fds w f of
           None \<Rightarrow> (Inl ErrClosed, w)
         | Some d \<Rightarrow>
             (case syscall w of
                (Some m, w1) \<Rightarrow> (Inl IOError, w1)
              | (None, w1) \<Rightarrow>
                  let avail = drop (dpos d) (inodes w1 (dino d)) in
                  if avail = [] then (Inl EOF, w1)
                  else if length avail < n then
                    (Inl ErrUnexpectedEOF,
                     w1\<lparr>fds := (fds w1)(f \<mapsto> d\<lparr>dpos := dpos d + length avail\<rparr>)\<rparr>)
                  else
                    (Inr (take n avail), w1\<lparr>fds := (fds w1)(f \<mapsto> d\<lparr>dpos := dpos d + n\<rparr>)\<rparr>))))"

definition Rename :: "world \<Rightarrow> path \<Rightarrow> path \<Rightarrow> error option \<times> world" where
  "Rename w oldname newname =
     (case syscall w of
        (Some n, w1) \<Rightarrow> (Some IOError, w1)
      | (None, w1) \<Rightarrow>
          (case names w1 oldname of
             None \<Rightarrow> (Some ErrNotExist, w1)
           | Some ino \<Rightarrow> (None, w1\<lparr>names := (names w1)(oldname := None, newname \<mapsto> ino)\<rparr>)))"

definition Remove :: "world \<Rightarrow> path \<Rightarrow> error option \<times> world" where
  "Remove w name =
     (case syscall w of
        (Some n, w1) \<Rightarrow> (Some IOError, w1)
      | (None, w1) \<Rightarrow>
          (case names w1 name of
             None \<Rightarrow> (Some ErrNotExist, w1)
           | Some ino \<Rightarrow> (None, w1\<lparr>names := (names w1)(name := None)\<rparr>)))"

text \<open>
  Opening, syncing and closing the directory of the log (\<^verbatim>\<open>os.Open(dir)\<close>, \<^verbatim>\<open>df.Sync()\<close>,
  \<^verbatim>\<open>df.Close()\<close>) change no file; each is a system call that may fail.
\<close>

definition OpenDir :: "world \<Rightarrow> error option \<times> world" where
  "OpenDir w = (case syscall w of (Some n, w1) \<Rightarrow> (Some IOError, w1) | (None, w1) \<Rightarrow> (None, w1))"

definition SyncDir :: "world \<Rightarrow> error option \<times> world" where
  "SyncDir w = (case syscall w of (Some n, w1) \<Rightarrow> (Some IOError, w1) | (None, w1) \<Rightarrow> (None, w1))"

definition CloseDir :: "world \<Rightarrow> error option \<times> world" where
  "CloseDir w = (case syscall w of (Some n, w1) \<Rightarrow> (Some IOError, w1) | (None, w1) \<Rightarrow> (None, w1))"

section \<open>Log writer and reader (\<^verbatim>\<open>kv/log.go\<close>)\<close>

definition writeLogEntry :: "world \<Rightarrow> nat \<Rightarrow> bytes \<Rightarrow> error option \<times> world" where
  "writeLogEntry w f payload =
     (let hdr = PutUint32 (len32 payload) @ PutUint32 (ChecksumIEEE payload) in
      case Write w f hdr of
        (Some err, w1) \<Rightarrow> (Some err, w1)
      | (None, w1) \<Rightarrow>
          (case Write w1 f payload of
             (Some err, w2) \<Rightarrow> (Some err, w2)
           | (None, w2) \<Rightarrow>
               (case Sync w2 f of
                  (Some err, w3) \<Rightarrow> (Some err, w3)
                | (None, w3) \<Rightarrow> (None, w3))))"

text \<open>What is left to read through a descriptor; it bounds the iterations of \<^verbatim>\<open>readLog\<close>.\<close>

definition remaining :: "world \<Rightarrow> nat \<Rightarrow> nat" where
  "remaining w f =
     (case fds w f of None \<Rightarrow> 0 | Some d \<Rightarrow> length (inodes w (dino d)) - dpos d)"

function readLog_loop ::
  "world \<Rightarrow> nat \<Rightarrow> bytes list \<Rightarrow> (bytes list \<times> error option) \<times> world" where
  "readLog_loop w f results =
     (case ReadFull w f 8 of
        (Inl err, w1) \<Rightarrow>
          if err = EOF \<or> err = ErrUnexpectedEOF then ((results, None), w1)
          else ((results, Some err), w1)
      | (Inr hdr, w1) \<Rightarrow>
          let size = unat (Uint32 (subslice hdr 0 4));
              expectedCrc = Uint32 (subslice hdr 4 8)
          in (case ReadFull w1 f size of
                (Inl err, w2) \<Rightarrow> ((results, None), w2)
              | (Inr payload, w2) \<Rightarrow>
                  if ChecksumIEEE payload \<noteq> expectedCrc then ((results, None), w2)
                  else readLog_loop w2 f (results @ [payload])))"
  by pat_completeness auto
termination
proof (relation "measure (\<lambda>(w, f, results). remaining w f)", goal_cases)
  case 1
  show ?case by simp
next
  case 2
  then show ?case
    by (auto simp: ReadFull_def remaining_def syscall_def Let_def
        split: if_splits option.splits list.splits prod.splits)
qed

declare readLog_loop.simps [simp del]

text \<open>
  \<^verbatim>\<open>readLog\<close>. The buffer for a payload is as long as the header announces; running out
  of memory for it is not modelled.
\<close>

definition readLog :: "world \<Rightarrow> nat \<Rightarrow> (bytes list \<times> error option) \<times> world" where
  "readLog w f = readLog_loop w f []"

section \<open>The store (\<^verbatim>\<open>kv/kv.go\<close>)\<close>

type_synonym table = "bytes \<rightharpoonup> bytes"

record KV =
  data :: table
  log :: nat
  logPath :: path

text \<open>
  The replay loop of \<^verbatim>\<open>NewKV\<close>: an empty payload is skipped, a \<^verbatim>\<open>return nil, err\<close> ends
  the loop with that error.
\<close>

fun replay :: "table \<Rightarrow> bytes list \<Rightarrow> error + table" where
  "replay d [] = Inr d"
| "replay d (payload # entries) =
     (if length payload = 0 then replay d entries
      else
        (case decode payload of
           Inl err \<Rightarrow> Inl err
         | Inr (SetRecord key val) \<Rightarrow> replay (d(key \<mapsto> val)) entries
         | Inr (DeleteRecord key) \<Rightarrow> replay (d(key := None)) entries))"

definition NewKV :: "world \<Rightarrow> path \<Rightarrow> (error + KV) \<times> world" where
  "NewKV w name =
     (case OpenFile w name \<lparr>O_CREATE = True, O_EXCL = False, O_TRUNC = False, O_APPEND = False\<rparr> of
        (Inl err, w1) \<Rightarrow> (Inl err, w1)
      | (Inr f, w1) \<Rightarrow>
          (case readLog w1 f of
             ((entries, Some err), w2) \<Rightarrow> (case Close w2 f of (r, w3) \<Rightarrow> (Inl err, w3))
           | ((entries, None), w2) \<Rightarrow>
               (case replay Map.empty entries of
                  Inl err \<Rightarrow> (Inl err, w2)
                | Inr d \<Rightarrow>
                    (case SeekEnd w2 f of
                       (Some err, w3) \<Rightarrow> (case Close w3 f of (r, w4) \<Rightarrow> (Inl err, w4))
                     | (None, w3) \<Rightarrow> (Inr \<lparr>data = d, log = f, logPath = name\<rparr>, w3)))))"

definition Set :: "world \<Rightarrow> KV \<Rightarrow> bytes \<Rightarrow> bytes \<Rightarrow> (error option \<times> KV) \<times> world" where
  "Set w k key val =
     (case writeLogEntry w (log k) (buildSetPayload key val) of
        (Some err, w1) \<Rightarrow> ((Some err, k), w1)
      | (None, w1) \<Rightarrow> ((None, k\<lparr>data := (data k)(key \<mapsto> val)\<rparr>), w1))"

definition Del :: "world \<Rightarrow> KV \<Rightarrow> bytes \<Rightarrow> (error option \<times> KV) \<times> world" where
  "Del w k key =
     (case writeLogEntry w (log k) (buildDelPayload key) of
        (Some err, w1) \<Rightarrow> ((Some err, k), w1)
      | (None, w1) \<Rightarrow> ((None, k\<lparr>data := (data k)(key := None)\<rparr>), w1))"

text \<open>\<^verbatim>\<open>Get\<close> returns the value and \<^verbatim>\<open>true\<close>, or \<^verbatim>\<open>nil\<close> and \<^verbatim>\<open>false\<close>.\<close>

definition Get :: "KV \<Rightarrow> bytes \<Rightarrow> bytes option" where
  "Get k key = data k key"

definition CloseKV :: "world \<Rightarrow> KV \<Rightarrow> error option \<times> world" where
  "CloseKV w k = Close w (log k)"

text \<open>
  \<^verbatim>\<open>Compact\<close>. Go leaves the order in which \<^verbatim>\<open>range k.data\<close> visits the table open; the
  pairs it visits, in that order, are the argument \<open>items\<close>: each key of the table once,
  with its value.
\<close>

fun compact_loop :: "world \<Rightarrow> nat \<Rightarrow> (bytes \<times> bytes) list \<Rightarrow> error option \<times> world" where
  "compact_loop w tmpF [] = (None, w)"
| "compact_loop w tmpF ((key, val) # items) =
     (case writeLogEntry w tmpF (buildSetPayload key val) of
        (Some err, w1) \<Rightarrow> (Some err, w1)
      | (None, w1) \<Rightarrow> compact_loop w1 tmpF items)"

definition Compact :: "(bytes \<times> bytes) list \<Rightarrow> world \<Rightarrow> KV \<Rightarrow> (error option \<times> KV) \<times> world" where
  "Compact items w k =
     (let tmpName = logPath k @ ''.compact.tmp'' in
      case OpenFile w tmpName \<lparr>O_CREATE = True, O_EXCL = True, O_TRUNC = True, O_APPEND = False\<rparr> of
        (Inl err, w1) \<Rightarrow> ((Some err, k), w1)
      | (Inr tmpF, w1) \<Rightarrow>
      (case compact_loop w1 tmpF items of
        (Some err, w2) \<Rightarrow>
          (case Close w2 tmpF of (r, w3) \<Rightarrow>
           case Remove w3 tmpName of (r', w4) \<Rightarrow> ((Some err, k), w4))
      | (None, w2) \<Rightarrow>
      (case Close w2 tmpF of
        (Some err, w3) \<Rightarrow> (case Remove w3 tmpName of (r, w4) \<Rightarrow> ((Some err, k), w4))
      | (None, w3) \<Rightarrow>
      (let rotatedName = logPath k @ ''.compact.new'' in
       case Rename w3 tmpName rotatedName of
        (Some err, w4) \<Rightarrow> (case Remove w4 tmpName of (r, w5) \<Rightarrow> ((Some err, k), w5))
      | (None, w4) \<Rightarrow>
      (case OpenDir w4 of
        (Some err, w5) \<Rightarrow> ((Some err, k), w5)
      | (None, w5) \<Rightarrow>
      (case SyncDir w5 of
        (Some err, w6) \<Rightarrow> (case CloseDir w6 of (r, w7) \<Rightarrow> ((Some err, k), w7))
      | (None, w6) \<Rightarrow>
      (case CloseDir w6 of
        (Some err, w7) \<Rightarrow> ((Some err, k), w7)
      | (None, w7) \<Rightarrow>
      (case Close w7 (log k) of
        (Some err, w8) \<Rightarrow> ((Some err, k), w8)
      | (None, w8) \<Rightarrow>
      (case Rename w8 rotatedName (logPath k) of
        (Some err, w9) \<Rightarrow> ((Some err, k), w9)
      | (None, w9) \<Rightarrow>
      (case OpenDir w9 of
        (Some err, w10) \<Rightarrow> ((Some err, k), w10)
      | (None, w10) \<Rightarrow>
      (case SyncDir w10 of
        (Some err, w11) \<Rightarrow> (case CloseDir w11 of (r, w12) \<Rightarrow> ((Some err, k), w12))
      | (None, w11) \<Rightarrow>
      (case CloseDir w11 of
        (Some err, w12) \<Rightarrow> ((Some err, k), w12)
      | (None, w12) \<Rightarrow>
      (case OpenFile w12 (logPath k)
              \<lparr>O_CREATE = False, O_EXCL = False, O_TRUNC = False, O_APPEND = True\<rparr> of
        (Inl err, w13) \<Rightarrow> ((Some err, k), w13)
      | (Inr newLog, w13) \<Rightarrow> ((None, k\<lparr>log := newLog\<rparr>), w13))))))))))))))"

section \<open>Notions used in the statements\<close>

text \<open>
  The frame of a payload as the specification lays it out: the length and the checksum
  of the payload as two big-endian 32-bit fields, then the payload.
\<close>

definition frame :: "bytes \<Rightarrow> bytes" where
  "frame payload = PutUint32 (len32 payload) @ PutUint32 (ChecksumIEEE payload) @ payload"

text \<open>No system call fails from now on.\<close>

definition quiet :: "world \<Rightarrow> bool" where
  "quiet w = list_all (\<lambda>flt. flt = None) (faults w)"

text \<open>A descriptor that writes at the end of its file.\<close>

definition at_end :: "world \<Rightarrow> descr \<Rightarrow> bool" where
  "at_end w d = (dappend d \<or> dpos d = length (inodes w (dino d)))"

text \<open>
  A store as \<^verbatim>\<open>NewKV\<close> and \<^verbatim>\<open>Compact\<close> leave it: its handle is open on the file that the
  path of the log names, and writes at the end of that file.
\<close>

definition open_store :: "world \<Rightarrow> KV \<Rightarrow> bool" where
  "open_store w k =
     (case fds w (log k) of
        None \<Rightarrow> False
      | Some d \<Rightarrow> names w (logPath k) = Some (dino d) \<and> at_end w d)"

text \<open>A small world for the examples: an empty log, open as descriptor 3, and its store.\<close>

definition world1 :: world where
  "world1 = \<lparr>names = [''db.log'' \<mapsto> 0], inodes = (\<lambda>i. []),
             fds = [3 \<mapsto> \<lparr>dino = 0, dpos = 0, dappend = False\<rparr>],
             nextino = 1, nextfd = 4, faults = []\<rparr>"

definition kv1 :: KV where
  "kv1 = \<lparr>data = Map.empty, log = 3, logPath = ''db.log''\<rparr>"

text \<open>
  Two worlds with the same files, in which the same descriptors are open on the same
  files: they differ at most in the offsets of the descriptors and in the schedule.
\<close>

definition same_files :: "world \<Rightarrow> world \<Rightarrow> bool" where
  "same_files w w' =
     (names w' = names w \<and> inodes w' = inodes w \<and> nextino w' = nextino w
      \<and> nextfd w' = nextfd w
      \<and> (\<forall>g. map_option (\<lambda>d. (dino d, dappend d)) (fds w' g)
               = map_option (\<lambda>d. (dino d, dappend d)) (fds w g)))"

text \<open>
  The tail that a crash may leave after the last whole frame: fewer than the eight bytes of
  a header (among them none at all), or a header that announces more bytes than follow
  it, or a header whose checksum is not that of the bytes it announces.
\<close>

definition torn :: "bytes \<Rightarrow> bool" where
  "torn t =
     (length t < 8
      \<or> length t - 8 < unat (Uint32 (take 4 t))
      \<or> ChecksumIEEE (take (unat (Uint32 (take 4 t))) (drop 8 t)) \<noteq> Uint32 (take 4 (drop 4 t)))"

text \<open>The log of \<open>world1\<close> holding three frames and the first five bytes of a fourth.\<close>

definition world2 :: world where
  "world2 = world1\<lparr>inodes := (\<lambda>i. frame [1, 2, 3] @ frame [] @ frame [4] @ [0, 0, 0, 9, 1])\<rparr>"

text \<open>
  The payload that the program writes for a record, the records whose payload fits the
  32-bit length of a frame, and what a record does to the table.
\<close>

definition encode :: "entry \<Rightarrow> bytes" where
  "encode e =
     (case e of
        SetRecord key val \<Rightarrow> buildSetPayload key val
      | DeleteRecord key \<Rightarrow> buildDelPayload key)"

definition fits :: "entry \<Rightarrow> bool" where
  "fits e = (length (encode e) < 2 ^ 32)"

definition apply_entry :: "table \<Rightarrow> entry \<Rightarrow> table" where
  "apply_entry d e =
     (case e of
        SetRecord key val \<Rightarrow> d(key \<mapsto> val)
      | DeleteRecord key \<Rightarrow> d(key := None))"

definition key_of :: "entry \<Rightarrow> bytes" where
  "key_of e = (case e of SetRecord key val \<Rightarrow> key | DeleteRecord key \<Rightarrow> key)"

text \<open>
  What a sequence of records leaves for a key, in the words of the specification: the
  value of the last set record for the key, unless a later delete record removes it. So
  the last record about the key decides.
\<close>

definition final :: "entry list \<Rightarrow> bytes \<Rightarrow> bytes option" where
  "final es key =
     (case filter (\<lambda>e. key_of e = key) es of
        [] \<Rightarrow> None
      | x # xs \<Rightarrow>
          (case last (x # xs) of
             SetRecord k val \<Rightarrow> Some val
           | DeleteRecord k \<Rightarrow> None))"

text \<open>The two logs of the examples of the specification, for the key \<open>k\<close>.\<close>

definition world3 :: world where
  "world3 = world1\<lparr>inodes := (\<lambda>i. concat (map (frame \<circ> encode)
       [SetRecord [107] [97], SetRecord [107] [98], DeleteRecord [107], SetRecord [107] [99]]))\<rparr>"

definition world4 :: world where
  "world4 = world1\<lparr>inodes := (\<lambda>i. concat (map (frame \<circ> encode)
       [SetRecord [107] [120], DeleteRecord [107]]))\<rparr>"

text \<open>
  A malformed payload, in the words of the specification: it is not empty, and its tag is
  neither that of a set nor that of a delete, or the key (its length field and the bytes
  that the field announces) reads past the end of the payload, or, in a set, the value
  does.
\<close>

definition field_overruns :: "bytes \<Rightarrow> nat \<Rightarrow> bool" where
  "field_overruns p off =
     (length p < off + 4 \<or> length p < off + 4 + unat (Uint32 (subslice p off (off + 4))))"

definition malformed :: "bytes \<Rightarrow> bool" where
  "malformed p =
     (p \<noteq> []
      \<and> ((p ! 0 \<noteq> OpSet \<and> p ! 0 \<noteq> OpDel)
         \<or> field_overruns p 1
         \<or> (p ! 0 = OpSet \<and> field_overruns p (5 + unat (Uint32 (subslice p 1 5))))))"

text \<open>
  A log with a good frame, then a checksummed frame whose payload is a set with a key
  length of nine and one byte of key, then another frame; and a log with an empty payload
  between two records.
\<close>

definition world5 :: world where
  "world5 = world1\<lparr>inodes := (\<lambda>i. concat (map frame
       [buildSetPayload [107] [97], [1, 0, 0, 0, 9, 1], buildDelPayload [107]]))\<rparr>"

definition world6 :: world where
  "world6 = world1\<lparr>inodes := (\<lambda>i. concat (map frame
       [buildSetPayload [107] [97], [], buildDelPayload [120]]))\<rparr>"

text \<open>The store of \<open>world3\<close>, whose table is what the log of \<open>world3\<close> replays to.\<close>

definition kv3 :: KV where
  "kv3 = kv1\<lparr>data := [[107] \<mapsto> [99]]\<rparr>"

text \<open>
  The store and the world that \<^verbatim>\<open>Set\<close> leaves when, on the empty store of \<open>world1\<close>, it
  binds a key of \<open>2 ^ 31\<close> zero bytes to a value of \<open>2 ^ 31\<close> zero bytes; and the one pair
  that \<^verbatim>\<open>range\<close> visits in its table.
\<close>

definition zeros :: "nat \<Rightarrow> bytes" where
  "zeros n = replicate n 0"

definition bigfield :: bytes where
  "bigfield = zeros (2 ^ 31)"

definition big_kv :: KV where
  "big_kv = snd (fst (Set world1 kv1 bigfield bigfield))"

definition big_world :: world where
  "big_world = snd (Set world1 kv1 bigfield bigfield)"

definition big_items :: "(bytes \<times> bytes) list" where
  "big_items = [(bigfield, bigfield)]"

text \<open>A key of \<open>2 ^ 32 - 5\<close> zero bytes, whose delete payload is \<open>2 ^ 32\<close> bytes long.\<close>

definition longkey :: bytes where
  "longkey = zeros (2 ^ 32 - 5)"

section \<open>Big-endian fields and the codec\<close>

lemma Uint32_PutUint32_append: "Uint32 (PutUint32 v @ rest) = v"
proof -
  have "ucast (ucast v :: byte) OR push_bit 8 (ucast (ucast (drop_bit 8 v) :: byte))
        OR push_bit 16 (ucast (ucast (drop_bit 16 v) :: byte))
        OR push_bit 24 (ucast (ucast (drop_bit 24 v) :: byte)) = v"
  proof (rule bit_word_eqI)
    fix n :: nat
    assume n: "n < LENGTH(32)"
    consider "n < 8" | "8 \<le> n" "n < 16" | "16 \<le> n" "n < 24" | "24 \<le> n" "n < 32"
      using n by fastforce
    then show "bit (ucast (ucast v :: byte) OR push_bit 8 (ucast (ucast (drop_bit 8 v) :: byte))
        OR push_bit 16 (ucast (ucast (drop_bit 16 v) :: byte))
        OR push_bit 24 (ucast (ucast (drop_bit 24 v) :: byte)) :: uint32) n = bit v n"
      by cases (auto simp: bit_simps)
  qed
  then show ?thesis
    by (simp add: PutUint32_def)
qed

lemma Uint32_PutUint32 [simp]: "Uint32 (PutUint32 v) = v"
  using Uint32_PutUint32_append [of v "[]"] by simp

lemma length_PutUint32 [simp]: "length (PutUint32 v) = 4"
  by (simp add: PutUint32_def)

lemma length_frame: "length (frame p) = 8 + length p"
  by (simp add: frame_def)

lemma unat_len32: "length b < 2 ^ 32 \<Longrightarrow> unat (len32 b) = length b"
  by (simp add: len32_def unat_of_nat)

lemma PutUint32_bytes:
  "map unat (PutUint32 v) =
     [unat v div 2 ^ 24 mod 256, unat v div 2 ^ 16 mod 256, unat v div 2 ^ 8 mod 256,
      unat v mod 256]"
  by (simp add: PutUint32_def unsigned_ucast_eq unat_drop_bit_eq take_bit_eq_mod
      drop_bit_eq_div unat_div)

lemma drop_prefix: "length xs = n \<Longrightarrow> drop n (xs @ ys) = ys"
  by simp

lemma decode_Set:
  assumes "length key < 2 ^ 32" and "length val < 2 ^ 32"
  shows "decode (buildSetPayload key val) = Inr (SetRecord key val)"
proof -
  let ?p = "buildSetPayload key val"
  have len: "length ?p = 9 + length key + length val"
    by (simp add: buildSetPayload_def)
  have tag: "?p ! 0 = OpSet"
    by (simp add: buildSetPayload_def)
  have d1: "drop (Suc 0) ?p = PutUint32 (len32 key) @ key @ PutUint32 (len32 val) @ val"
    by (simp add: buildSetPayload_def)
  have d5: "drop 5 ?p = key @ PutUint32 (len32 val) @ val"
    using drop_prefix [of "[OpSet] @ PutUint32 (len32 key)" 5 "key @ PutUint32 (len32 val) @ val"]
    by (simp add: buildSetPayload_def)
  have dk: "drop (5 + length key) ?p = PutUint32 (len32 val) @ val"
    using drop_prefix [of "[OpSet] @ PutUint32 (len32 key) @ key" "5 + length key"
        "PutUint32 (len32 val) @ val"]
    by (simp add: buildSetPayload_def)
  have dv: "drop (9 + length key) ?p = val"
    using drop_prefix [of "[OpSet] @ PutUint32 (len32 key) @ key @ PutUint32 (len32 val)"
        "9 + length key" val]
    by (simp add: buildSetPayload_def)
  show ?thesis
    using assms
    by (simp add: decode_def subslice_def Let_def tag len d1 d5 dk dv unat_len32)
qed

lemma decode_Del:
  assumes "length key < 2 ^ 32"
  shows "decode (buildDelPayload key) = Inr (DeleteRecord key)"
proof -
  let ?p = "buildDelPayload key"
  have len: "length ?p = 5 + length key"
    by (simp add: buildDelPayload_def)
  have tag: "?p ! 0 = OpDel"
    by (simp add: buildDelPayload_def)
  have neq: "OpDel \<noteq> OpSet"
    by (simp add: OpDel_def OpSet_def)
  have d1: "drop (Suc 0) ?p = PutUint32 (len32 key) @ key"
    by (simp add: buildDelPayload_def)
  have d5: "drop 5 ?p = key"
    using drop_prefix [of "[OpDel] @ PutUint32 (len32 key)" 5 key]
    by (simp add: buildDelPayload_def)
  show ?thesis
    using assms
    by (simp add: decode_def subslice_def Let_def tag neq len d1 d5 unat_len32)
qed

text \<open>
  Claim C5 (codec round trip). For a key and a value shorter than \<open>2 ^ 32\<close> bytes, the
  replay loop decodes the payload of \<^verbatim>\<open>buildSetPayload\<close> as a set record with that key and
  that value, and the payload of \<^verbatim>\<open>buildDelPayload\<close> as a delete record with that key; it
  then binds the key to the value, or removes the key.
\<close>

theorem codec_round_trip:
  assumes "length key < 2 ^ 32" and "length val < 2 ^ 32"
  shows "decode (buildSetPayload key val) = Inr (SetRecord key val)
       \<and> decode (buildDelPayload key) = Inr (DeleteRecord key)
       \<and> replay d [buildSetPayload key val] = Inr (d(key \<mapsto> val))
       \<and> replay d [buildDelPayload key] = Inr (d(key := None))"
  using assms
  by (simp add: decode_Set decode_Del) (simp add: buildSetPayload_def buildDelPayload_def)

theorem codec_round_trip_witness:
  "decode (buildSetPayload [] [0, 255]) = Inr (SetRecord [] [0, 255])
   \<and> decode (buildDelPayload []) = Inr (DeleteRecord [])
   \<and> replay Map.empty [buildSetPayload [] [0, 255]] = Inr [[] \<mapsto> [0, 255]]
   \<and> replay [[] \<mapsto> [0, 255]] [buildDelPayload []] = Inr Map.empty"
proof -
  have k: "length ([] :: bytes) < 2 ^ 32" and v: "length [0, 255 :: byte] < 2 ^ 32"
    by simp_all
  show ?thesis
    using codec_round_trip [OF k v, of Map.empty] codec_round_trip [OF k v, of "[[] \<mapsto> [0, 255]]"]
    by simp
qed

section \<open>Effects of the system calls\<close>

lemma syscall_fields:
  "syscall w = (flt, w1) \<Longrightarrow>
     names w1 = names w \<and> inodes w1 = inodes w \<and> fds w1 = fds w \<and> nextino w1 = nextino w
     \<and> nextfd w1 = nextfd w \<and> faults w1 = tl (faults w)"
  by (auto simp: syscall_def split: list.splits)

lemma Write_ok:
  assumes "Write w f b = (None, w')" and "fds w f = Some d" and "at_end w d"
  shows "inodes w' = (inodes w)(dino d := inodes w (dino d) @ b)"
    and "fds w' = (fds w)(f \<mapsto> d\<lparr>dpos := length (inodes w (dino d)) + length b\<rparr>)"
    and "names w' = names w" and "nextino w' = nextino w" and "nextfd w' = nextfd w"
    and "faults w' = tl (faults w)"
  using assms
  by (auto simp: Write_def at_end_def Let_def dest!: syscall_fields
      split: prod.splits option.splits)

lemma Write_quiet:
  assumes "quiet w" and "fds w f = Some d"
  shows "\<exists>w'. Write w f b = (None, w') \<and> quiet w'"
  using assms
  by (auto simp: Write_def Let_def quiet_def syscall_def split: list.splits)

lemma Sync_ok:
  assumes "Sync w f = (r, w')"
  shows "inodes w' = inodes w" and "fds w' = fds w" and "names w' = names w"
    and "nextino w' = nextino w" and "nextfd w' = nextfd w"
  using assms
  by (auto simp: Sync_def dest!: syscall_fields split: prod.splits option.splits)

lemma Sync_quiet:
  assumes "quiet w" and "fds w f = Some d"
  shows "\<exists>w'. Sync w f = (None, w') \<and> quiet w'"
  using assms
  by (auto simp: Sync_def quiet_def syscall_def split: list.splits)

lemma writeLogEntry_ok:
  assumes "writeLogEntry w f payload = (None, w')" and "fds w f = Some d" and "at_end w d"
  shows "inodes w' = (inodes w)(dino d := inodes w (dino d) @ frame payload)"
    and "fds w' = (fds w)(f \<mapsto> d\<lparr>dpos := length (inodes w (dino d)) + (8 + length payload)\<rparr>)"
    and "names w' = names w" and "nextino w' = nextino w" and "nextfd w' = nextfd w"
proof -
  let ?hdr = "PutUint32 (len32 payload) @ PutUint32 (ChecksumIEEE payload)"
  from assms(1) obtain w1 w2 where
    s1: "Write w f ?hdr = (None, w1)" and s2: "Write w1 f payload = (None, w2)"
    and s3: "Sync w2 f = (None, w')"
    by (auto simp: writeLogEntry_def Let_def split: prod.splits option.splits)
  note a = Write_ok [OF s1 assms(2,3)]
  let ?d1 = "d\<lparr>dpos := length (inodes w (dino d)) + length ?hdr\<rparr>"
  have f1: "fds w1 f = Some ?d1"
    by (simp add: a)
  have e1: "at_end w1 ?d1"
    using assms(3) by (simp add: at_end_def a)
  note b = Write_ok [OF s2 f1 e1]
  note c = Sync_ok [OF s3]
  show "inodes w' = (inodes w)(dino d := inodes w (dino d) @ frame payload)"
    by (simp add: a b c frame_def)
  show "fds w' = (fds w)(f \<mapsto> d\<lparr>dpos := length (inodes w (dino d)) + (8 + length payload)\<rparr>)"
    by (simp add: a b c add.assoc)
  show "names w' = names w" "nextino w' = nextino w" "nextfd w' = nextfd w"
    by (simp_all add: a b c)
qed

lemma writeLogEntry_quiet:
  assumes "quiet w" and "fds w f = Some d" and "at_end w d"
  shows "\<exists>w'. writeLogEntry w f payload = (None, w') \<and> quiet w'"
proof -
  let ?hdr = "PutUint32 (len32 payload) @ PutUint32 (ChecksumIEEE payload)"
  obtain w1 where s1: "Write w f ?hdr = (None, w1)" and q1: "quiet w1"
    using Write_quiet [OF assms(1,2)] by blast
  have f1: "fds w1 f \<noteq> None"
    using Write_ok(2) [OF s1 assms(2,3)] by simp
  then obtain d1 where d1: "fds w1 f = Some d1" by blast
  obtain w2 where s2: "Write w1 f payload = (None, w2)" and q2: "quiet w2"
    using Write_quiet [OF q1 d1] by blast
  have "fds w2 f \<noteq> None"
    using s2 d1 by (auto simp: Write_def Let_def split: prod.splits option.splits)
  then obtain d2 where d2: "fds w2 f = Some d2" by blast
  obtain w3 where s3: "Sync w2 f = (None, w3)" and q3: "quiet w3"
    using Sync_quiet [OF q2 d2] by blast
  show ?thesis
    using s1 s2 s3 q3 by (simp add: writeLogEntry_def)
qed

section \<open>The frame on disk\<close>

text \<open>
  Claim C8 (frame byte layout). When \<^verbatim>\<open>writeLogEntry\<close> succeeds on a descriptor that writes
  at the end of its file, with a payload shorter than \<open>2 ^ 32\<close> bytes, the file has grown by
  exactly the four bytes of the payload's length, most significant byte first, the four
  bytes of the CRC-32 of the payload, most significant byte first, and the payload:
  \<open>8 + len(payload)\<close> bytes, by which the offset of the descriptor has advanced; no other
  file has changed.
\<close>

theorem writeLogEntry_frame_layout:
  assumes "writeLogEntry w f payload = (None, w')" and "fds w f = Some d" and "at_end w d"
    and "length payload < 2 ^ 32"
  shows "inodes w' (dino d) =
           inodes w (dino d) @ PutUint32 (word_of_nat (length payload))
             @ PutUint32 (ChecksumIEEE payload) @ payload
       \<and> map unat (PutUint32 (word_of_nat (length payload))) =
           [length payload div 2 ^ 24 mod 256, length payload div 2 ^ 16 mod 256,
            length payload div 2 ^ 8 mod 256, length payload mod 256]
       \<and> map unat (PutUint32 (ChecksumIEEE payload)) =
           [unat (ChecksumIEEE payload) div 2 ^ 24 mod 256,
            unat (ChecksumIEEE payload) div 2 ^ 16 mod 256,
            unat (ChecksumIEEE payload) div 2 ^ 8 mod 256,
            unat (ChecksumIEEE payload) mod 256]
       \<and> length (inodes w' (dino d)) = length (inodes w (dino d)) + 8 + length payload
       \<and> map_option dpos (fds w' f) = Some (length (inodes w (dino d)) + 8 + length payload)
       \<and> (\<forall>i. i \<noteq> dino d \<longrightarrow> inodes w' i = inodes w i)"
proof -
  note eff = writeLogEntry_ok [OF assms(1,2,3)]
  have n: "unat (word_of_nat (length payload) :: uint32) = length payload"
    using assms(4) by (simp add: unat_of_nat)
  have "map unat (PutUint32 (word_of_nat (length payload))) =
           [length payload div 2 ^ 24 mod 256, length payload div 2 ^ 16 mod 256,
            length payload div 2 ^ 8 mod 256, length payload mod 256]"
    using PutUint32_bytes [of "word_of_nat (length payload)"] by (simp only: n)
  then show ?thesis
    by (simp add: eff frame_def len32_def PutUint32_bytes)
qed

theorem writeLogEntry_frame_layout_witness:
  "fst (writeLogEntry world1 3 [7, 8]) = None
   \<and> inodes (snd (writeLogEntry world1 3 [7, 8])) 0 =
       [0, 0, 0, 2] @ PutUint32 (ChecksumIEEE [7, 8]) @ [7, 8]
   \<and> length (inodes (snd (writeLogEntry world1 3 [7, 8])) 0) = 10"
proof -
  have ok: "fst (writeLogEntry world1 3 [7, 8]) = None"
    by (simp add: writeLogEntry_def Write_def Sync_def syscall_def world1_def Let_def)
  then have run: "writeLogEntry world1 3 [7, 8] = (None, snd (writeLogEntry world1 3 [7, 8]))"
    by (metis prod.collapse)
  have d: "fds world1 3 = Some \<lparr>dino = 0, dpos = 0, dappend = False\<rparr>"
    by (simp add: world1_def)
  have e: "at_end world1 \<lparr>dino = 0, dpos = 0, dappend = False\<rparr>"
    by (simp add: at_end_def world1_def)
  have l: "length [7, 8 :: byte] < 2 ^ 32"
    by simp
  show ?thesis
    using ok writeLogEntry_frame_layout [OF run d e l]
    by (simp add: world1_def PutUint32_def)
qed

section \<open>Set and Del\<close>

text \<open>
  Claim C7 (at most one side effect). \<^verbatim>\<open>Set\<close> and \<^verbatim>\<open>Del\<close> return what the append to the
  log returned. When that is an error the store, and so its table, is as it was; the key is
  bound to the value by \<^verbatim>\<open>Set\<close>, or removed by \<^verbatim>\<open>Del\<close>, only when the append succeeded.
\<close>

theorem Set_Del_append_failure_keeps_table:
  assumes "Set w k key val = ((r, k'), w')" and "Del w k key = ((r2, k2), w2)"
  shows "writeLogEntry w (log k) (buildSetPayload key val) = (r, w')
       \<and> (r \<noteq> None \<longrightarrow> k' = k)
       \<and> (r = None \<longrightarrow> k' = k\<lparr>data := (data k)(key \<mapsto> val)\<rparr>)
       \<and> writeLogEntry w (log k) (buildDelPayload key) = (r2, w2)
       \<and> (r2 \<noteq> None \<longrightarrow> k2 = k)
       \<and> (r2 = None \<longrightarrow> k2 = k\<lparr>data := (data k)(key := None)\<rparr>)"
  using assms
  by (auto simp: Set_def Del_def split: prod.splits option.splits)

theorem Set_Del_append_failure_keeps_table_witness:
  "fst (fst (Set (world1\<lparr>faults := [None, Some 3]\<rparr>) kv1 [97] [49])) = Some IOError
   \<and> snd (fst (Set (world1\<lparr>faults := [None, Some 3]\<rparr>) kv1 [97] [49])) = kv1
   \<and> fst (fst (Del (world1\<lparr>faults := [None, Some 3]\<rparr>) kv1 [97])) = Some IOError
   \<and> snd (fst (Del (world1\<lparr>faults := [None, Some 3]\<rparr>) kv1 [97])) = kv1
   \<and> fst (fst (Set world1 kv1 [97] [49])) = None
   \<and> data (snd (fst (Set world1 kv1 [97] [49]))) = [[97] \<mapsto> [49]]
   \<and> fst (fst (Del world1 (kv1\<lparr>data := [[97] \<mapsto> [49]]\<rparr>) [97])) = None
   \<and> data (snd (fst (Del world1 (kv1\<lparr>data := [[97] \<mapsto> [49]]\<rparr>) [97]))) = Map.empty"
proof -
  let ?wf = "world1\<lparr>faults := [None, Some 3]\<rparr>"
  let ?k2 = "kv1\<lparr>data := [[97] \<mapsto> [49]]\<rparr>"
  have f1: "fst (fst (Set ?wf kv1 [97] [49])) = Some IOError"
    and f2: "fst (fst (Del ?wf kv1 [97])) = Some IOError"
    and s1: "fst (fst (Set world1 kv1 [97] [49])) = None"
    and s2: "fst (fst (Del world1 ?k2 [97])) = None"
    by (simp_all add: Set_def Del_def writeLogEntry_def Write_def Sync_def syscall_def
        world1_def kv1_def Let_def)
  have c: "\<And>x :: (error option \<times> KV) \<times> world. x = ((fst (fst x), snd (fst x)), snd x)"
    by simp
  show ?thesis
    using f1 f2 s1 s2
      Set_Del_append_failure_keeps_table [OF c [of "Set ?wf kv1 [97] [49]"] c [of "Del ?wf kv1 [97]"]]
      Set_Del_append_failure_keeps_table [OF c [of "Set world1 kv1 [97] [49]"] c [of "Del world1 kv1 [97]"]]
      Set_Del_append_failure_keeps_table [OF c [of "Set world1 ?k2 [97] [49]"] c [of "Del world1 ?k2 [97]"]]
    by (simp add: kv1_def)
qed

section \<open>Reading the log\<close>

lemma same_files_refl [simp]: "same_files w w"
  by (simp add: same_files_def)

lemma same_files_trans: "same_files w w1 \<Longrightarrow> same_files w1 w2 \<Longrightarrow> same_files w w2"
  by (simp add: same_files_def)

lemma ReadFull_quiet_ok:
  assumes "quiet w" and "fds w f = Some d" and "n \<le> length (drop (dpos d) (inodes w (dino d)))"
  shows "\<exists>w'. ReadFull w f n = (Inr (take n (drop (dpos d) (inodes w (dino d)))), w')
             \<and> quiet w' \<and> same_files w w' \<and> fds w' f = Some (d\<lparr>dpos := dpos d + n\<rparr>)"
  using assms
  by (cases "faults w")
    (auto simp: ReadFull_def quiet_def syscall_def same_files_def Let_def)

lemma ReadFull_quiet_short:
  assumes "quiet w" and "fds w f = Some d" and "length (drop (dpos d) (inodes w (dino d))) < n"
  shows "\<exists>e w'. ReadFull w f n = (Inl e, w') \<and> (e = EOF \<or> e = ErrUnexpectedEOF)
             \<and> quiet w' \<and> same_files w w'"
  using assms
  by (cases "faults w")
    (auto simp: ReadFull_def quiet_def syscall_def same_files_def Let_def)

lemma readLog_loop_step:
  assumes q: "quiet w" and d: "fds w f = Some d"
    and c: "drop (dpos d) (inodes w (dino d)) = hdr @ p @ rest"
    and h: "length hdr = 8" "unat (Uint32 (take 4 hdr)) = length p"
      "Uint32 (take 4 (drop 4 hdr)) = ChecksumIEEE p"
  shows "\<exists>w2. readLog_loop w f acc = readLog_loop w2 f (acc @ [p]) \<and> quiet w2
            \<and> same_files w w2 \<and> fds w2 f = Some (d\<lparr>dpos := dpos d + (8 + length p)\<rparr>)"
proof -
  have "8 \<le> length (drop (dpos d) (inodes w (dino d)))"
    using c h(1) by simp
  from ReadFull_quiet_ok [OF q d this] obtain w1 where
    r1: "ReadFull w f 8 = (Inr hdr, w1)" and q1: "quiet w1" and s1: "same_files w w1"
    and d1: "fds w1 f = Some (d\<lparr>dpos := dpos d + 8\<rparr>)"
    using c h(1) by auto
  have i1: "inodes w1 = inodes w"
    using s1 by (simp add: same_files_def)
  have c1: "drop (dpos (d\<lparr>dpos := dpos d + 8\<rparr>)) (inodes w1 (dino (d\<lparr>dpos := dpos d + 8\<rparr>)))
              = p @ rest"
    using c h(1) by (simp add: i1 add.commute [of _ 8] flip: drop_drop)
  then have "length p \<le> length (drop (dpos (d\<lparr>dpos := dpos d + 8\<rparr>))
      (inodes w1 (dino (d\<lparr>dpos := dpos d + 8\<rparr>))))"
    by simp
  from ReadFull_quiet_ok [OF q1 d1 this] obtain w2 where
    r2: "ReadFull w1 f (length p) = (Inr p, w2)" and q2: "quiet w2" and s2: "same_files w1 w2"
    and d2: "fds w2 f = Some (d\<lparr>dpos := dpos d + (8 + length p)\<rparr>)"
    unfolding c1 by (auto simp: add.assoc)
  have h3: "Uint32 (drop 4 hdr) = ChecksumIEEE p"
    using h(1,3) by simp
  have "readLog_loop w f acc = readLog_loop w2 f (acc @ [p])"
    by (subst readLog_loop.simps) (simp add: r1 r2 h h3 subslice_def Let_def)
  then show ?thesis
    using q2 d2 same_files_trans [OF s1 s2] by blast
qed

lemma readLog_loop_stop:
  assumes q: "quiet w" and d: "fds w f = Some d"
    and t: "torn (drop (dpos d) (inodes w (dino d)))"
  shows "\<exists>w'. readLog_loop w f acc = ((acc, None), w') \<and> quiet w' \<and> same_files w w'"
proof -
  let ?t = "drop (dpos d) (inodes w (dino d))"
  show ?thesis
  proof (cases "length ?t < 8")
    case True
    from ReadFull_quiet_short [OF q d True] obtain e w1 where
      r1: "ReadFull w f 8 = (Inl e, w1)" and e: "e = EOF \<or> e = ErrUnexpectedEOF"
      and q1: "quiet w1" and s1: "same_files w w1"
      by blast
    have "readLog_loop w f acc = ((acc, None), w1)"
      using e by (subst readLog_loop.simps) (auto simp: r1)
    then show ?thesis
      using q1 s1 by blast
  next
    case False
    then have "8 \<le> length ?t" by simp
    from ReadFull_quiet_ok [OF q d this] obtain w1 where
      r1: "ReadFull w f 8 = (Inr (take 8 ?t), w1)" and q1: "quiet w1" and s1: "same_files w w1"
      and d1: "fds w1 f = Some (d\<lparr>dpos := dpos d + 8\<rparr>)"
      by blast
    let ?d1 = "d\<lparr>dpos := dpos d + 8\<rparr>"
    let ?n = "unat (Uint32 (take 4 ?t))"
    have i1: "inodes w1 = inodes w"
      using s1 by (simp add: same_files_def)
    have c1: "drop (dpos ?d1) (inodes w1 (dino ?d1)) = drop 8 ?t"
      by (simp add: i1 add.commute)
    have hd4: "subslice (take 8 ?t) 0 4 = take 4 ?t"
      and hd8: "subslice (take 8 ?t) 4 8 = take 4 (drop 4 ?t)"
      using False by (simp_all add: subslice_def drop_take min_def)
    show ?thesis
    proof (cases "length ?t - 8 < ?n")
      case True
      then have "length (drop (dpos ?d1) (inodes w1 (dino ?d1))) < ?n"
        unfolding c1 by simp
      from ReadFull_quiet_short [OF q1 d1 this] obtain e w2 where
        r2: "ReadFull w1 f ?n = (Inl e, w2)" and q2: "quiet w2" and s2: "same_files w1 w2"
        by blast
      have "readLog_loop w f acc = ((acc, None), w2)"
        by (subst readLog_loop.simps) (simp add: r1 r2 hd4 hd8 Let_def)
      then show ?thesis
        using q2 same_files_trans [OF s1 s2] by blast
    next
      case short: False
      then have "?n \<le> length (drop (dpos ?d1) (inodes w1 (dino ?d1)))"
        unfolding c1 by simp
      from ReadFull_quiet_ok [OF q1 d1 this] obtain w2 where
        r2: "ReadFull w1 f ?n = (Inr (take ?n (drop 8 ?t)), w2)" and q2: "quiet w2"
        and s2: "same_files w1 w2"
        unfolding c1 by blast
      have "ChecksumIEEE (take ?n (drop 8 ?t)) \<noteq> Uint32 (take 4 (drop 4 ?t))"
        using t False short by (simp add: torn_def)
      then have "readLog_loop w f acc = ((acc, None), w2)"
        by (subst readLog_loop.simps) (simp add: r1 r2 hd4 hd8 Let_def)
      then show ?thesis
        using q2 same_files_trans [OF s1 s2] by blast
    qed
  qed
qed

lemma frame_header:
  assumes "length p < 2 ^ 32"
  shows "\<exists>hdr. frame p = hdr @ p \<and> length hdr = 8 \<and> unat (Uint32 (take 4 hdr)) = length p
           \<and> Uint32 (take 4 (drop 4 hdr)) = ChecksumIEEE p"
  using assms
  by (intro exI [of _ "PutUint32 (len32 p) @ PutUint32 (ChecksumIEEE p)"])
    (simp add: frame_def unat_len32)

lemma readLog_loop_frames:
  assumes "quiet w" and "fds w f = Some d"
    and "drop (dpos d) (inodes w (dino d)) = concat (map frame ps) @ tail"
    and "\<forall>p\<in>set ps. length p < 2 ^ 32" and "torn tail"
  shows "\<exists>w'. readLog_loop w f acc = ((acc @ ps, None), w') \<and> quiet w' \<and> same_files w w'"
  using assms
proof (induction ps arbitrary: w d acc)
  case Nil
  then show ?case
    using readLog_loop_stop [of w f d acc] by simp
next
  case (Cons p ps)
  from Cons.prems(4) have "length p < 2 ^ 32" by simp
  from frame_header [OF this] obtain hdr where
    fr: "frame p = hdr @ p" and h: "length hdr = 8" "unat (Uint32 (take 4 hdr)) = length p"
      "Uint32 (take 4 (drop 4 hdr)) = ChecksumIEEE p"
    by blast
  let ?rest = "concat (map frame ps) @ tail"
  have c: "drop (dpos d) (inodes w (dino d)) = hdr @ p @ ?rest"
    using Cons.prems(3) fr by simp
  from readLog_loop_step [OF Cons.prems(1,2) c h, of acc] obtain w2 where
    st: "readLog_loop w f acc = readLog_loop w2 f (acc @ [p])" and q2: "quiet w2"
    and s2: "same_files w w2" and d2: "fds w2 f = Some (d\<lparr>dpos := dpos d + (8 + length p)\<rparr>)"
    by blast
  let ?d2 = "d\<lparr>dpos := dpos d + (8 + length p)\<rparr>"
  have i2: "inodes w2 = inodes w"
    using s2 by (simp add: same_files_def)
  have "drop (8 + length p) (drop (dpos d) (inodes w (dino d))) = ?rest"
    unfolding c using h(1) by simp
  then have c2: "drop (dpos ?d2) (inodes w2 (dino ?d2)) = ?rest"
    by (simp add: i2 add.commute)
  from Cons.prems(4) have "\<forall>p\<in>set ps. length p < 2 ^ 32" by simp
  from Cons.IH [OF q2 d2 c2 this Cons.prems(5), of "acc @ [p]"] obtain w' where
    "readLog_loop w2 f (acc @ [p]) = (((acc @ [p]) @ ps, None), w')" "quiet w'" "same_files w2 w'"
    by blast
  then show ?case
    using st same_files_trans [OF s2] by auto
qed


text \<open>
  Claim C3 (crash-tail tolerance of replay). Let the bytes that a descriptor has yet to
  read be the frames of the payloads \<open>ps\<close>, each shorter than \<open>2 ^ 32\<close> bytes, followed
  by a tail that is empty, or stops inside a frame header, or stops inside the payload that
  its header announces, or is a frame whose checksum is not that of its payload. With no
  system call failing, \<^verbatim>\<open>readLog\<close> returns exactly \<open>ps\<close>, in order, and no error.
\<close>

theorem readLog_crash_tail:
  assumes "quiet w" and "fds w f = Some d"
    and "drop (dpos d) (inodes w (dino d)) = concat (map frame ps) @ tail"
    and "\<forall>p\<in>set ps. length p < 2 ^ 32" and "torn tail"
  shows "\<exists>w'. readLog w f = ((ps, None), w')"
  using readLog_loop_frames [OF assms, of "[]"]
  by (auto simp: readLog_def)

theorem readLog_crash_tail_witness:
  "quiet world2 \<and> torn [0, 0, 0, 9, 1] \<and> torn [] \<and> torn [0, 0, 0, 2, 0, 0, 0, 0, 7]
   \<and> fst (readLog world2 3) = ([[1, 2, 3], [], [4]], None)"
proof -
  let ?d = "\<lparr>dino = 0, dpos = 0, dappend = False\<rparr>"
  have q: "quiet world2" and d: "fds world2 3 = Some ?d"
    by (simp_all add: world2_def world1_def quiet_def)
  have c: "drop (dpos ?d) (inodes world2 (dino ?d))
             = concat (map frame [[1, 2, 3], [], [4]]) @ [0, 0, 0, 9, 1]"
    by (simp add: world2_def world1_def)
  have l: "\<forall>p\<in>set [[1, 2, 3], [], [4 :: byte]]. length p < 2 ^ 32"
    by simp
  have t: "torn [0, 0, 0, 9, 1]" and t0: "torn []" and t2: "torn [0, 0, 0, 2, 0, 0, 0, 0, 7]"
    by (simp_all add: torn_def)
  show ?thesis
    using q t t0 t2 readLog_crash_tail [OF q d c l t]
    by auto
qed

section \<open>Opening a store\<close>

lemma OpenFile_existing_quiet:
  assumes "quiet w" and "names w name = Some ino" and "\<not> (O_CREATE fl \<and> O_EXCL fl)"
    and "\<not> O_TRUNC fl"
  shows "\<exists>w1. OpenFile w name fl = (Inr (nextfd w), w1) \<and> quiet w1 \<and> names w1 = names w
           \<and> inodes w1 = inodes w
           \<and> fds w1 = (fds w)(nextfd w \<mapsto> \<lparr>dino = ino, dpos = 0, dappend = O_APPEND fl\<rparr>)"
  using assms
  by (cases "faults w") (auto simp: OpenFile_def newfd_def quiet_def syscall_def)

lemma SeekEnd_quiet:
  assumes "quiet w" and "fds w f = Some d"
  shows "\<exists>w'. SeekEnd w f = (None, w') \<and> quiet w' \<and> names w' = names w \<and> inodes w' = inodes w
           \<and> fds w' = (fds w)(f \<mapsto> d\<lparr>dpos := length (inodes w (dino d))\<rparr>)"
  using assms
  by (cases "faults w") (auto simp: SeekEnd_def quiet_def syscall_def)

lemma open_and_read:
  assumes "quiet w" and "names w name = Some ino"
    and "inodes w ino = concat (map frame ps) @ tail"
    and "\<forall>p\<in>set ps. length p < 2 ^ 32" and "torn tail"
  shows "\<exists>w1 w2.
           OpenFile w name \<lparr>O_CREATE = True, O_EXCL = False, O_TRUNC = False, O_APPEND = False\<rparr>
             = (Inr (nextfd w), w1)
           \<and> readLog w1 (nextfd w) = ((ps, None), w2) \<and> quiet w2 \<and> same_files w1 w2
           \<and> names w1 = names w \<and> inodes w1 = inodes w
           \<and> fds w1 (nextfd w) = Some \<lparr>dino = ino, dpos = 0, dappend = False\<rparr>"
proof -
  let ?fl = "\<lparr>O_CREATE = True, O_EXCL = False, O_TRUNC = False, O_APPEND = False\<rparr>"
  let ?f = "nextfd w"
  let ?d = "\<lparr>dino = ino, dpos = 0, dappend = False\<rparr>"
  from OpenFile_existing_quiet [OF assms(1,2), of ?fl] obtain w1 where
    o: "OpenFile w name ?fl = (Inr ?f, w1)" and q1: "quiet w1" and n1: "names w1 = names w"
    and i1: "inodes w1 = inodes w" and f1: "fds w1 = (fds w)(?f \<mapsto> ?d)"
    by auto
  have d1: "fds w1 ?f = Some ?d"
    by (simp add: f1)
  have c1: "drop (dpos ?d) (inodes w1 (dino ?d)) = concat (map frame ps) @ tail"
    by (simp add: i1 assms(3))
  from readLog_loop_frames [OF q1 d1 c1 assms(4,5), of "[]"] obtain w2 where
    "readLog w1 ?f = ((ps, None), w2)" "quiet w2" "same_files w1 w2"
    by (auto simp: readLog_def)
  then show ?thesis
    using o n1 i1 d1 by blast
qed

lemma NewKV_frames:
  assumes "quiet w" and "names w name = Some ino"
    and "inodes w ino = concat (map frame ps) @ tail"
    and "\<forall>p\<in>set ps. length p < 2 ^ 32" and "torn tail"
  shows "\<exists>w'. quiet w' \<and> names w' = names w \<and> inodes w' = inodes w
           \<and> (case replay Map.empty ps of
                 Inl e \<Rightarrow> NewKV w name = (Inl e, w')
               | Inr t \<Rightarrow> NewKV w name = (Inr \<lparr>data = t, log = nextfd w, logPath = name\<rparr>, w')
                   \<and> open_store w' \<lparr>data = t, log = nextfd w, logPath = name\<rparr>)"
proof -
  let ?fl = "\<lparr>O_CREATE = True, O_EXCL = False, O_TRUNC = False, O_APPEND = False\<rparr>"
  let ?f = "nextfd w"
  let ?d = "\<lparr>dino = ino, dpos = 0, dappend = False\<rparr>"
  from open_and_read [OF assms] obtain w1 w2 where
    o: "OpenFile w name ?fl = (Inr ?f, w1)" and r: "readLog w1 ?f = ((ps, None), w2)"
    and q2: "quiet w2" and s2: "same_files w1 w2" and n1: "names w1 = names w"
    and i1: "inodes w1 = inodes w" and d1: "fds w1 ?f = Some ?d"
    by blast
  have n2: "names w2 = names w" and i2: "inodes w2 = inodes w"
    using s2 n1 i1 by (simp_all add: same_files_def)
  have "map_option (\<lambda>d. (dino d, dappend d)) (fds w2 ?f) = Some (ino, False)"
    using s2 d1 by (simp add: same_files_def)
  then obtain d2 where d2: "fds w2 ?f = Some d2" and k2: "dino d2 = ino" "dappend d2 = False"
    by auto
  show ?thesis
  proof (cases "replay Map.empty ps")
    case (Inl e)
    then have "NewKV w name = (Inl e, w2)"
      by (simp add: NewKV_def o r)
    then show ?thesis
      using Inl q2 n2 i2 by auto
  next
    case (Inr t)
    from SeekEnd_quiet [OF q2 d2] obtain w3 where
      s: "SeekEnd w2 ?f = (None, w3)" and q3: "quiet w3" and n3: "names w3 = names w2"
      and i3: "inodes w3 = inodes w2"
      and f3: "fds w3 = (fds w2)(?f \<mapsto> d2\<lparr>dpos := length (inodes w2 (dino d2))\<rparr>)"
      by blast
    have "NewKV w name = (Inr \<lparr>data = t, log = ?f, logPath = name\<rparr>, w3)"
      by (simp add: NewKV_def o r Inr s)
    moreover have "open_store w3 \<lparr>data = t, log = ?f, logPath = name\<rparr>"
      using assms(2) by (simp add: open_store_def f3 n3 n2 i3 k2 at_end_def)
    ultimately show ?thesis
      using Inr q3 n3 n2 i3 i2 by auto
  qed
qed

lemma NewKV_outcome:
  assumes "quiet w" and "names w name = Some ino"
    and "inodes w ino = concat (map frame ps) @ tail"
    and "\<forall>p\<in>set ps. length p < 2 ^ 32" and "torn tail"
  shows "map_sum id data (fst (NewKV w name)) = replay Map.empty ps"
proof -
  from NewKV_frames [OF assms] obtain w' where
    "case replay Map.empty ps of
       Inl e \<Rightarrow> NewKV w name = (Inl e, w')
     | Inr t \<Rightarrow> NewKV w name = (Inr \<lparr>data = t, log = nextfd w, logPath = name\<rparr>, w')
         \<and> open_store w' \<lparr>data = t, log = nextfd w, logPath = name\<rparr>"
    by blast
  then show ?thesis
    by (cases "replay Map.empty ps") auto
qed

section \<open>Replaying records\<close>

lemma length_encode:
  "length (encode (SetRecord key val)) = 9 + length key + length val"
  "length (encode (DeleteRecord key)) = 5 + length key"
  by (simp_all add: encode_def buildSetPayload_def buildDelPayload_def)

lemma replay_encode:
  assumes "fits e"
  shows "replay d (encode e # ps) = replay (apply_entry d e) ps"
proof (cases e)
  case (SetRecord key val)
  then have "length key < 2 ^ 32" "length val < 2 ^ 32"
    using assms by (simp_all add: fits_def length_encode)
  then have "decode (encode e) = Inr e"
    using SetRecord by (simp add: encode_def decode_Set)
  then show ?thesis
    using SetRecord by (simp add: apply_entry_def) (simp add: encode_def buildSetPayload_def)
next
  case (DeleteRecord key)
  then have "length key < 2 ^ 32"
    using assms by (simp add: fits_def length_encode)
  then have "decode (encode e) = Inr e"
    using DeleteRecord by (simp add: encode_def decode_Del)
  then show ?thesis
    using DeleteRecord by (simp add: apply_entry_def) (simp add: encode_def buildDelPayload_def)
qed

lemma replay_records:
  assumes "\<forall>e\<in>set es. fits e"
  shows "replay d (map encode es) = Inr (foldl apply_entry d es)"
  using assms
  by (induction es arbitrary: d) (simp_all add: replay_encode del: replay.simps(2))

lemma foldl_apply_entry_final:
  "foldl apply_entry d es key =
     (case filter (\<lambda>e. key_of e = key) es of
        [] \<Rightarrow> d key
      | x # xs \<Rightarrow>
          (case last (x # xs) of
             SetRecord k val \<Rightarrow> Some val
           | DeleteRecord k \<Rightarrow> None))"
proof (induction es rule: rev_induct)
  case Nil
  then show ?case by simp
next
  case (snoc e es)
  show ?case
  proof (cases "key_of e = key")
    case True
    then show ?thesis
      by (cases e; cases "filter (\<lambda>e. key_of e = key) es")
        (simp_all add: apply_entry_def key_of_def)
  next
    case False
    then show ?thesis
      using snoc by (cases e) (simp_all add: apply_entry_def key_of_def)
  qed
qed

text \<open>
  Claim C4 (replay order). Let the log hold the frames of the payloads of the records
  \<open>es\<close>, in this order, each payload fitting a frame, and let no system call fail. Then
  \<^verbatim>\<open>NewKV\<close> succeeds with the table that comes from applying the records in file order,
  and \<^verbatim>\<open>Get\<close> of a key is the value of the last set record for the key unless a later
  delete record removes it. For the records set \<open>a\<close>, set \<open>b\<close>, delete, set \<open>c\<close> of one key,
  \<^verbatim>\<open>Get\<close> of the key is \<open>c\<close>; for set \<open>x\<close>, delete, it is absent.
\<close>

theorem NewKV_replay_order:
  assumes "quiet w" and "names w name = Some ino"
    and "inodes w ino = concat (map (frame \<circ> encode) es)"
    and "\<forall>e\<in>set es. fits e"
  shows "\<exists>k w'. NewKV w name = (Inr k, w')
           \<and> data k = foldl apply_entry Map.empty es
           \<and> (\<forall>key. Get k key = final es key)
           \<and> (es = [SetRecord key1 a, SetRecord key1 b, DeleteRecord key1, SetRecord key1 c]
                \<longrightarrow> Get k key1 = Some c)
           \<and> (es = [SetRecord key1 x, DeleteRecord key1] \<longrightarrow> Get k key1 = None)"
proof -
  have c: "inodes w ino = concat (map frame (map encode es)) @ []"
    using assms(3) by simp
  have l: "\<forall>p\<in>set (map encode es). length p < 2 ^ 32"
    using assms(4) by (simp add: fits_def)
  have t: "torn []"
    by (simp add: torn_def)
  let ?t = "foldl apply_entry Map.empty es"
  let ?k = "\<lparr>data = ?t, log = nextfd w, logPath = name\<rparr>"
  from NewKV_frames [OF assms(1,2) c l t] obtain w' where
    run: "NewKV w name = (Inr ?k, w')"
    by (auto simp: replay_records [OF assms(4)])
  have g: "Get ?k key = final es key" for key
    by (simp add: Get_def final_def foldl_apply_entry_final)
  have "es = [SetRecord key1 a, SetRecord key1 b, DeleteRecord key1, SetRecord key1 c]
          \<longrightarrow> Get ?k key1 = Some c"
    using g [of key1] by (auto simp: final_def key_of_def)
  moreover have "es = [SetRecord key1 x, DeleteRecord key1] \<longrightarrow> Get ?k key1 = None"
    using g [of key1] by (auto simp: final_def key_of_def)
  ultimately show ?thesis
    using run g by auto
qed

theorem NewKV_replay_order_witness:
  "quiet world3 \<and> quiet world4
   \<and> (\<exists>k w'. NewKV world3 ''db.log'' = (Inr k, w') \<and> Get k [107] = Some [99])
   \<and> (\<exists>k w'. NewKV world4 ''db.log'' = (Inr k, w') \<and> Get k [107] = None)"
proof -
  let ?es3 = "[SetRecord [107] [97], SetRecord [107] [98], DeleteRecord [107], SetRecord [107] [99]]"
  let ?es4 = "[SetRecord [107] [120], DeleteRecord [107]]"
  have q3: "quiet world3" and n3: "names world3 ''db.log'' = Some 0"
    and c3: "inodes world3 0 = concat (map (frame \<circ> encode) ?es3)"
    by (simp_all add: world3_def world1_def quiet_def)
  have q4: "quiet world4" and n4: "names world4 ''db.log'' = Some 0"
    and c4: "inodes world4 0 = concat (map (frame \<circ> encode) ?es4)"
    by (simp_all add: world4_def world1_def quiet_def)
  have f3: "\<forall>e\<in>set ?es3. fits e" and f4: "\<forall>e\<in>set ?es4. fits e"
    by (simp_all add: fits_def length_encode)
  show ?thesis
    using q3 q4
      NewKV_replay_order [OF q3 n3 c3 f3, of "[107]" "[97]" "[98]" "[99]"]
      NewKV_replay_order [OF q4 n4 c4 f4, of "[107]" _ _ _ "[120]"]
    by auto
qed

section \<open>Malformed and empty payloads\<close>

lemma decode_malformed:
  assumes "malformed p"
  shows "\<exists>e. decode p = Inl e"
  using assms
  by (auto simp: decode_def malformed_def field_overruns_def Let_def)

lemma decode_well_formed:
  assumes "p \<noteq> []" and "\<not> malformed p"
  shows "\<exists>r. decode p = Inr r"
  using assms
  by (auto simp: decode_def malformed_def field_overruns_def Let_def subslice_def)

lemma replay_malformed:
  assumes "p \<in> set ps" and "malformed p"
  shows "\<exists>e. replay d ps = Inl e"
  using assms
proof (induction ps arbitrary: d)
  case Nil
  then show ?case by simp
next
  case (Cons q ps)
  show ?case
  proof (cases "q = p")
    case True
    then have "q \<noteq> []"
      using Cons.prems(2) by (simp add: malformed_def)
    moreover obtain e where "decode q = Inl e"
      using decode_malformed [OF Cons.prems(2)] True by blast
    ultimately show ?thesis by simp
  next
    case False
    then have "p \<in> set ps"
      using Cons.prems(1) by simp
    then have "\<exists>e. replay d' ps = Inl e" for d'
      using Cons.IH Cons.prems(2) by blast
    then show ?thesis
      by (auto split: sum.splits entry.splits)
  qed
qed

lemma replay_append:
  "replay d (xs @ ys) = (case replay d xs of Inl e \<Rightarrow> Inl e | Inr d' \<Rightarrow> replay d' ys)"
  by (induction xs arbitrary: d) (auto split: sum.splits entry.splits)

lemma frame_empty: "frame [] = [0, 0, 0, 0, 0, 0, 0, 0]"
  by (simp add: frame_def len32_def ChecksumIEEE_def PutUint32_def)

text \<open>
  Claim C6 (malformed entry). Let the log hold the frames of the payloads \<open>ps\<close>, each with
  its own checksum, followed at most by a torn tail, and let one of the payloads be
  malformed. With no system call failing, \<^verbatim>\<open>NewKV\<close> reads all the payloads and then returns
  the error of the replay, and no store.
\<close>

theorem NewKV_malformed_entry:
  assumes "quiet w" and "names w name = Some ino"
    and "inodes w ino = concat (map frame ps) @ tail"
    and "\<forall>p\<in>set ps. length p < 2 ^ 32" and "torn tail"
    and "p \<in> set ps" and "malformed p"
  shows "\<exists>e w' w1 w2. NewKV w name = (Inl e, w') \<and> replay Map.empty ps = Inl e
           \<and> OpenFile w name \<lparr>O_CREATE = True, O_EXCL = False, O_TRUNC = False, O_APPEND = False\<rparr>
               = (Inr (nextfd w), w1)
           \<and> readLog w1 (nextfd w) = ((ps, None), w2)"
proof -
  obtain e where e: "replay Map.empty ps = Inl e"
    using replay_malformed [OF assms(6,7)] by blast
  from NewKV_frames [OF assms(1-5)] obtain w' where "NewKV w name = (Inl e, w')"
    by (auto simp: e)
  then show ?thesis
    using e open_and_read [OF assms(1-5)] by blast
qed

theorem NewKV_malformed_entry_witness:
  "quiet world5 \<and> malformed [1, 0, 0, 0, 9, 1] \<and> malformed [3] \<and> malformed [2, 0, 0]
   \<and> (\<exists>e w'. NewKV world5 ''db.log'' = (Inl e, w'))"
proof -
  let ?ps = "[buildSetPayload [107] [97], [1, 0, 0, 0, 9, 1], buildDelPayload [107]]"
  have q: "quiet world5" and n: "names world5 ''db.log'' = Some 0"
    and c: "inodes world5 0 = concat (map frame ?ps) @ []"
    by (simp_all add: world5_def world1_def quiet_def)
  have l: "\<forall>p\<in>set ?ps. length p < 2 ^ 32"
    by (simp add: buildSetPayload_def buildDelPayload_def)
  have t: "torn []"
    by (simp add: torn_def)
  have m: "[1, 0, 0, 0, 9, 1] \<in> set ?ps"
    by simp
  have b: "malformed [1, 0, 0, 0, 9, 1]" and b2: "malformed [3]" and b3: "malformed [2, 0, 0]"
    by (simp_all add: malformed_def field_overruns_def subslice_def OpSet_def OpDel_def)
  show ?thesis
    using q b b2 b3 NewKV_malformed_entry [OF q n c l t m b]
    by blast
qed

text \<open>
  Claim C10 (empty payload). The frame of the empty payload is eight zero bytes: the
  length \<open>0\<close> and the CRC-32 of no bytes. Let the log hold that frame among the frames of
  other payloads, followed at most by a torn tail, and let no system call fail. Then
  \<^verbatim>\<open>NewKV\<close> reads the empty payload along with the others; it is not malformed, it leaves
  the table as it is, and the outcome of \<^verbatim>\<open>NewKV\<close>, the table or the error, is that of
  replaying the other payloads.
\<close>

theorem empty_payload_skipped:
  assumes "quiet w" and "names w name = Some ino"
    and "inodes w ino = concat (map frame (pre @ [[]] @ post)) @ tail"
    and "\<forall>p\<in>set (pre @ post). length p < 2 ^ 32" and "torn tail"
  shows "frame [] = [0, 0, 0, 0, 0, 0, 0, 0] \<and> \<not> malformed [] \<and> replay d [[]] = Inr d
       \<and> replay d (pre @ [[]] @ post) = replay d (pre @ post)
       \<and> (\<exists>w1 w2.
            OpenFile w name \<lparr>O_CREATE = True, O_EXCL = False, O_TRUNC = False, O_APPEND = False\<rparr>
              = (Inr (nextfd w), w1)
            \<and> readLog w1 (nextfd w) = ((pre @ [[]] @ post, None), w2))
       \<and> map_sum id data (fst (NewKV w name)) = replay Map.empty (pre @ post)"
proof -
  have l: "\<forall>p\<in>set (pre @ [[]] @ post). length p < 2 ^ 32"
    using assms(4) by auto
  have r: "replay d' (pre @ [] # post) = replay d' (pre @ post)" for d'
    by (simp add: replay_append split: sum.splits)
  from open_and_read [OF assms(1-3) l assms(5)] obtain w1 w2 where
    "OpenFile w name \<lparr>O_CREATE = True, O_EXCL = False, O_TRUNC = False, O_APPEND = False\<rparr>
       = (Inr (nextfd w), w1)"
    "readLog w1 (nextfd w) = ((pre @ [[]] @ post, None), w2)"
    by blast
  then show ?thesis
    using NewKV_outcome [OF assms(1-3) l assms(5)]
    by (auto simp: frame_empty malformed_def r)
qed

theorem empty_payload_skipped_witness:
  "quiet world6 \<and> torn []
   \<and> map_sum id data (fst (NewKV world6 ''db.log'')) = Inr [[107] \<mapsto> [97]]"
proof -
  let ?pre = "[buildSetPayload [107] [97]]" and ?post = "[buildDelPayload [120]]"
  have q: "quiet world6" and n: "names world6 ''db.log'' = Some 0"
    and c: "inodes world6 0 = concat (map frame (?pre @ [[]] @ ?post)) @ []"
    by (simp_all add: world6_def world1_def quiet_def)
  have l: "\<forall>p\<in>set (?pre @ ?post). length p < 2 ^ 32"
    by (simp add: buildSetPayload_def buildDelPayload_def)
  have t: "torn []"
    by (simp add: torn_def)
  have "\<forall>e\<in>set [SetRecord [107] [97], DeleteRecord [120]]. fits e"
    by (simp add: fits_def length_encode)
  from replay_records [OF this, of Map.empty]
  have "replay Map.empty (?pre @ ?post) = Inr [[107] \<mapsto> [97]]"
    by (simp add: encode_def apply_entry_def del: replay.simps)
  then show ?thesis
    using q t empty_payload_skipped [OF q n c l t, of Map.empty]
    by simp
qed

section \<open>Compaction\<close>

lemma OpenFile_excl_ok:
  assumes "OpenFile w name \<lparr>O_CREATE = True, O_EXCL = True, O_TRUNC = True, O_APPEND = False\<rparr>
             = (Inr f, w1)"
  shows "names w name = None" and "names w1 = (names w)(name \<mapsto> nextino w)"
    and "inodes w1 = (inodes w)(nextino w := [])"
    and "fds w1 f = Some \<lparr>dino = nextino w, dpos = 0, dappend = False\<rparr>"
  using assms
  by (auto simp: OpenFile_def newfd_def dest!: syscall_fields
      split: prod.splits option.splits if_splits)

lemma OpenFile_append_ok:
  assumes "OpenFile w name \<lparr>O_CREATE = False, O_EXCL = False, O_TRUNC = False, O_APPEND = True\<rparr>
             = (Inr f, w1)"
  shows "\<exists>i. names w name = Some i \<and> names w1 = names w \<and> inodes w1 = inodes w
           \<and> fds w1 f = Some \<lparr>dino = i, dpos = 0, dappend = True\<rparr>"
  using assms
  by (auto simp: OpenFile_def newfd_def dest!: syscall_fields
      split: prod.splits option.splits if_splits)

lemma Close_same:
  "Close w f = (r, w') \<Longrightarrow> names w' = names w \<and> inodes w' = inodes w"
  by (auto simp: Close_def dest!: syscall_fields split: prod.splits option.splits)

lemma Rename_ok:
  assumes "Rename w a b = (None, w')"
  shows "\<exists>i. names w a = Some i \<and> names w' = (names w)(a := None, b \<mapsto> i)
           \<and> inodes w' = inodes w"
  using assms
  by (auto simp: Rename_def dest!: syscall_fields split: prod.splits option.splits)

lemma OpenDir_same:
  "OpenDir w = (r, w') \<Longrightarrow> names w' = names w \<and> inodes w' = inodes w"
  by (auto simp: OpenDir_def dest!: syscall_fields split: prod.splits option.splits)

lemma SyncDir_same:
  "SyncDir w = (r, w') \<Longrightarrow> names w' = names w \<and> inodes w' = inodes w"
  by (auto simp: SyncDir_def dest!: syscall_fields split: prod.splits option.splits)

lemma CloseDir_same:
  "CloseDir w = (r, w') \<Longrightarrow> names w' = names w \<and> inodes w' = inodes w"
  by (auto simp: CloseDir_def dest!: syscall_fields split: prod.splits option.splits)

lemma compact_loop_ok:
  assumes "compact_loop w f items = (None, w')" and "fds w f = Some d" and "at_end w d"
  shows "inodes w' = (inodes w)(dino d := inodes w (dino d)
             @ concat (map (\<lambda>(key, val). frame (buildSetPayload key val)) items))
       \<and> names w' = names w"
  using assms
proof (induction items arbitrary: w d)
  case Nil
  then show ?case by simp
next
  case (Cons item items)
  obtain key val where item: "item = (key, val)"
    by (cases item)
  let ?p = "buildSetPayload key val"
  from Cons.prems(1) obtain w1 where
    s1: "writeLogEntry w f ?p = (None, w1)" and s2: "compact_loop w1 f items = (None, w')"
    by (auto simp: item split: prod.splits option.splits)
  note eff = writeLogEntry_ok [OF s1 Cons.prems(2,3)]
  let ?d1 = "d\<lparr>dpos := length (inodes w (dino d)) + (8 + length ?p)\<rparr>"
  have d1: "fds w1 f = Some ?d1"
    by (simp add: eff)
  have e1: "at_end w1 ?d1"
    by (simp add: at_end_def eff length_frame)
  from Cons.IH [OF s2 d1 e1] show ?case
    by (auto simp: item eff fun_eq_iff)
qed

lemma Compact_success:
  assumes "Compact items w k = ((None, k'), w')"
  shows "\<exists>tmpF w1 w2 w3 w4 w5 w6 w7 w8 w9 w10 w11 w12 newLog.
      OpenFile w (logPath k @ ''.compact.tmp'')
        \<lparr>O_CREATE = True, O_EXCL = True, O_TRUNC = True, O_APPEND = False\<rparr> = (Inr tmpF, w1)
    \<and> compact_loop w1 tmpF items = (None, w2)
    \<and> Close w2 tmpF = (None, w3)
    \<and> Rename w3 (logPath k @ ''.compact.tmp'') (logPath k @ ''.compact.new'') = (None, w4)
    \<and> OpenDir w4 = (None, w5) \<and> SyncDir w5 = (None, w6) \<and> CloseDir w6 = (None, w7)
    \<and> Close w7 (log k) = (None, w8)
    \<and> Rename w8 (logPath k @ ''.compact.new'') (logPath k) = (None, w9)
    \<and> OpenDir w9 = (None, w10) \<and> SyncDir w10 = (None, w11) \<and> CloseDir w11 = (None, w12)
    \<and> OpenFile w12 (logPath k)
        \<lparr>O_CREATE = False, O_EXCL = False, O_TRUNC = False, O_APPEND = True\<rparr> = (Inr newLog, w')
    \<and> k' = k\<lparr>log := newLog\<rparr>"
  using assms
  by (simp add: Compact_def Let_def split: prod.splits sum.splits option.splits)

lemma Compact_ok:
  assumes "Compact items w k = ((None, k'), w')"
  shows "\<exists>i. names w' (logPath k) = Some i
           \<and> inodes w' i = concat (map (\<lambda>(key, val). frame (buildSetPayload key val)) items)
           \<and> fds w' (log k') = Some \<lparr>dino = i, dpos = 0, dappend = True\<rparr>
           \<and> data k' = data k \<and> logPath k' = logPath k"
proof -
  let ?tmp = "logPath k @ ''.compact.tmp''" and ?new = "logPath k @ ''.compact.new''"
  from Compact_success [OF assms] obtain tmpF w1 w2 w3 w4 w5 w6 w7 w8 w9 w10 w11 w12 newLog where
    s1: "OpenFile w ?tmp \<lparr>O_CREATE = True, O_EXCL = True, O_TRUNC = True, O_APPEND = False\<rparr>
           = (Inr tmpF, w1)"
    and s2: "compact_loop w1 tmpF items = (None, w2)"
    and s3: "Close w2 tmpF = (None, w3)"
    and s4: "Rename w3 ?tmp ?new = (None, w4)"
    and s5: "OpenDir w4 = (None, w5)" and s6: "SyncDir w5 = (None, w6)"
    and s7: "CloseDir w6 = (None, w7)"
    and s8: "Close w7 (log k) = (None, w8)"
    and s9: "Rename w8 ?new (logPath k) = (None, w9)"
    and s10: "OpenDir w9 = (None, w10)" and s11: "SyncDir w10 = (None, w11)"
    and s12: "CloseDir w11 = (None, w12)"
    and s13: "OpenFile w12 (logPath k)
           \<lparr>O_CREATE = False, O_EXCL = False, O_TRUNC = False, O_APPEND = True\<rparr> = (Inr newLog, w')"
    and k': "k' = k\<lparr>log := newLog\<rparr>"
    by blast
  let ?i = "nextino w"
  let ?d = "\<lparr>dino = ?i, dpos = 0, dappend = False\<rparr>"
  let ?c = "concat (map (\<lambda>(key, val). frame (buildSetPayload key val)) items)"
  note o1 = OpenFile_excl_ok [OF s1]
  have e1: "at_end w1 ?d"
    by (simp add: at_end_def o1)
  from compact_loop_ok [OF s2 o1(4) e1]
  have i2: "inodes w2 ?i = ?c" and n2: "names w2 ?tmp = Some ?i"
    by (simp_all add: o1)
  have i3: "inodes w3 ?i = ?c" and n3: "names w3 ?tmp = Some ?i"
    using Close_same [OF s3] i2 n2 by simp_all
  have i4: "inodes w4 ?i = ?c" and n4: "names w4 ?new = Some ?i"
    using Rename_ok [OF s4] i3 n3 by auto
  have i7: "inodes w7 ?i = ?c" and n7: "names w7 ?new = Some ?i"
    using OpenDir_same [OF s5] SyncDir_same [OF s6] CloseDir_same [OF s7] i4 n4 by simp_all
  have i8: "inodes w8 ?i = ?c" and n8: "names w8 ?new = Some ?i"
    using Close_same [OF s8] i7 n7 by simp_all
  have i9: "inodes w9 ?i = ?c" and n9: "names w9 (logPath k) = Some ?i"
    using Rename_ok [OF s9] i8 n8 by auto
  have i12: "inodes w12 ?i = ?c" and n12: "names w12 (logPath k) = Some ?i"
    using OpenDir_same [OF s10] SyncDir_same [OF s11] CloseDir_same [OF s12] i9 n9 by simp_all
  from OpenFile_append_ok [OF s13]
  have "names w' (logPath k) = Some ?i" "inodes w' ?i = ?c"
    "fds w' newLog = Some \<lparr>dino = ?i, dpos = 0, dappend = True\<rparr>"
    using i12 n12 by auto
  then show ?thesis
    by (simp add: k')
qed

lemma apply_entry_Set: "apply_entry d (SetRecord key val) = d(key \<mapsto> val)"
  by (simp add: apply_entry_def)

lemma replay_set_items:
  assumes "distinct (map fst items)"
  shows "foldl apply_entry d (map (\<lambda>(key, val). SetRecord key val) items) = d ++ map_of items"
  using assms
proof (induction items arbitrary: d)
  case Nil
  then show ?case by simp
next
  case (Cons item items)
  obtain key val where item: "item = (key, val)"
    by (cases item)
  have "key \<notin> dom (map_of items)"
    using Cons.prems by (auto simp: item dom_map_of_conv_image_fst)
  then have u: "d(key \<mapsto> val) ++ map_of items = (d ++ map_of items)(key \<mapsto> val)"
    by (rule map_add_upd_left)
  have "foldl apply_entry d (map (\<lambda>(key, val). SetRecord key val) (item # items))
          = foldl apply_entry (d(key \<mapsto> val)) (map (\<lambda>(key, val). SetRecord key val) items)"
    by (simp add: item apply_entry_Set)
  also have "\<dots> = d(key \<mapsto> val) ++ map_of items"
    using Cons.IH Cons.prems by simp
  also have "\<dots> = d ++ map_of (item # items)"
    unfolding u by (simp add: item)
  finally show ?case .
qed

text \<open>
  Claim C1 (compaction preserves state), for tables whose entries fit a frame. Let
  \<^verbatim>\<open>Compact\<close> return no error, having visited the pairs \<open>items\<close> of the table, each key
  once, and let every pair have a set payload shorter than \<open>2 ^ 32\<close> bytes. Then the log
  holds exactly the frames of the set payloads of the pairs, one for each key of the
  table, and the table of the store is as it was. When no system call fails afterwards,
  a store opened on the log reads exactly these payloads, each of which decodes as the set
  record of its pair, and its table is the table that was compacted.
\<close>

theorem Compact_preserves_state:
  assumes "Compact items w k = ((None, k'), w')"
    and "distinct (map fst items)" and "map_of items = data k"
    and "\<forall>(key, val)\<in>set items. length (buildSetPayload key val) < 2 ^ 32"
    and "quiet w'"
  shows "contents w' (logPath k)
           = Some (concat (map (\<lambda>(key, val). frame (buildSetPayload key val)) items))
       \<and> length items = card (dom (data k)) \<and> set (map fst items) = dom (data k)
       \<and> map decode (map (\<lambda>(key, val). buildSetPayload key val) items)
           = map (\<lambda>(key, val). Inr (SetRecord key val)) items
       \<and> data k' = data k
       \<and> (\<exists>w1 w2.
            OpenFile w' (logPath k)
              \<lparr>O_CREATE = True, O_EXCL = False, O_TRUNC = False, O_APPEND = False\<rparr>
              = (Inr (nextfd w'), w1)
            \<and> readLog w1 (nextfd w')
              = ((map (\<lambda>(key, val). buildSetPayload key val) items, None), w2))
       \<and> (\<exists>k2 w2. NewKV w' (logPath k) = (Inr k2, w2) \<and> data k2 = data k)"
proof -
  let ?es = "map (\<lambda>(key, val). SetRecord key val) items"
  let ?ps = "map (\<lambda>(key, val). buildSetPayload key val) items"
  from Compact_ok [OF assms(1)] obtain i where
    n: "names w' (logPath k) = Some i"
    and c: "inodes w' i = concat (map (\<lambda>(key, val). frame (buildSetPayload key val)) items)"
    and k': "data k' = data k"
    by blast
  have ps: "map encode ?es = ?ps"
    by (induction items) (auto simp: encode_def)
  have fr: "concat (map (\<lambda>(key, val). frame (buildSetPayload key val)) items)
              = concat (map frame ?ps) @ []"
    by (induction items) auto
  have fits: "\<forall>e\<in>set ?es. fits e"
    using assms(4) by (auto simp: fits_def encode_def)
  have l: "\<forall>p\<in>set ?ps. length p < 2 ^ 32"
    using assms(4) by auto
  have t: "torn []"
    by (simp add: torn_def)
  have c': "inodes w' i = concat (map frame ?ps) @ []"
    using c fr by simp
  have "replay Map.empty ?ps = Inr (foldl apply_entry Map.empty ?es)"
    using replay_records [OF fits, of Map.empty] by (simp only: ps)
  then have r: "replay Map.empty ?ps = Inr (data k)"
    using replay_set_items [OF assms(2), of Map.empty] assms(3) by simp
  from NewKV_frames [OF assms(5) n c' l t] obtain w2 where
    "NewKV w' (logPath k) = (Inr \<lparr>data = data k, log = nextfd w', logPath = logPath k\<rparr>, w2)"
    by (auto simp: r)
  then have reopen: "\<exists>k2 w2. NewKV w' (logPath k) = (Inr k2, w2) \<and> data k2 = data k"
    by auto
  have dom: "set (map fst items) = dom (data k)"
    using assms(3) by (auto simp: dom_map_of_conv_image_fst [symmetric])
  then have card: "length items = card (dom (data k))"
    using distinct_card [OF assms(2)] by simp
  have "length key < 2 ^ 32 \<and> length val < 2 ^ 32" if "(key, val) \<in> set items" for key val
    using assms(4) that by (auto simp: buildSetPayload_def)
  then have dec: "map decode ?ps = map (\<lambda>(key, val). Inr (SetRecord key val)) items"
    by (auto simp: decode_Set)
  show ?thesis
    using open_and_read [OF assms(5) n c' l t] reopen dom card dec k'
    by (simp add: contents_def n c) blast
qed

theorem Compact_preserves_state_witness:
  "fst (fst (Compact [([107], [99])] world3 kv3)) = None
   \<and> quiet (snd (Compact [([107], [99])] world3 kv3))
   \<and> contents (snd (Compact [([107], [99])] world3 kv3)) ''db.log''
       = Some (frame (buildSetPayload [107] [99]))
   \<and> (\<exists>k2 w2. NewKV (snd (Compact [([107], [99])] world3 kv3)) ''db.log'' = (Inr k2, w2)
         \<and> data k2 = [[107] \<mapsto> [99]])"
proof -
  let ?run = "Compact [([107], [99])] world3 kv3"
  have ok: "fst (fst ?run) = None"
    by (simp add: Compact_def OpenFile_def newfd_def writeLogEntry_def Write_def Sync_def
        Close_def Rename_def OpenDir_def SyncDir_def CloseDir_def syscall_def world3_def
        world1_def kv3_def kv1_def Let_def)
  have q: "quiet (snd ?run)"
    by (simp add: Compact_def OpenFile_def newfd_def writeLogEntry_def Write_def Sync_def
        Close_def Rename_def OpenDir_def SyncDir_def CloseDir_def syscall_def world3_def
        world1_def kv3_def kv1_def Let_def quiet_def)
  have run: "?run = ((None, snd (fst ?run)), snd ?run)"
    using ok by (metis prod.collapse)
  have d: "distinct (map fst [([107], [99 :: byte]) :: bytes \<times> bytes])"
    and m: "map_of [([107], [99])] = data kv3"
    and l: "\<forall>(key, val)\<in>set [([107], [99])]. length (buildSetPayload key val) < 2 ^ 32"
    by (simp_all add: kv3_def buildSetPayload_def)
  show ?thesis
    using ok q Compact_preserves_state [OF run d m l q]
    by (simp add: kv3_def kv1_def)
qed

lemma length_zeros [simp]: "length (zeros n) = n"
  by (simp add: zeros_def)

lemma zeros_add: "zeros (a + b) = zeros a @ zeros b"
  by (simp add: zeros_def replicate_add)

lemma zeros_4: "zeros 4 = [0, 0, 0, 0]"
  by (simp add: zeros_def eval_nat_numeral)

lemma zeros_frames: "zeros (8 * m) = concat (map frame (replicate m []))"
proof (induction m)
  case 0
  then show ?case by (simp add: zeros_def)
next
  case (Suc m)
  have "zeros (8 * Suc m) = zeros 8 @ zeros (8 * m)"
    using zeros_add [of 8 "8 * m"] by simp
  moreover have "zeros 8 = frame []"
    by (simp add: frame_empty zeros_def eval_nat_numeral)
  ultimately show ?case
    using Suc by simp
qed

text \<open>
  The payload of the big entry is \<open>2 ^ 32 + 9\<close> bytes long, so its frame announces nine
  bytes: the tag, the key length \<open>2 ^ 31\<close> and four bytes of the key. What follows them
  reads as empty frames up to a frame with a wrong checksum.
\<close>

lemma length_bigfield: "length bigfield = 2147483648"
  by (simp add: bigfield_def)

lemma bigfield_split:
  "bigfield = [0, 0, 0, 0] @ concat (map frame (replicate 268435455 [])) @ [0, 0, 0, 0]"
proof -
  have "zeros (2 ^ 31) = zeros (4 + (8 * 268435455 + 4))"
    by simp
  also have "\<dots> = zeros 4 @ zeros (8 * 268435455) @ zeros 4"
    by (simp only: zeros_add)
  finally show ?thesis
    by (simp only: zeros_4 zeros_frames bigfield_def)
qed

lemma big_payload:
  "buildSetPayload bigfield bigfield
     = [1, 128, 0, 0, 0, 0, 0, 0, 0] @ concat (map frame (replicate 268435455 []))
         @ [0, 0, 0, 0, 128, 0, 0, 0] @ bigfield"
proof -
  have l: "PutUint32 (len32 bigfield) = [128, 0, 0, 0]"
    by (simp add: len32_def PutUint32_def length_bigfield)
  have "buildSetPayload bigfield bigfield
          = [1, 128, 0, 0, 0] @ bigfield @ [128, 0, 0, 0] @ bigfield"
    by (simp add: buildSetPayload_def l OpSet_def)
  also have "\<dots> = [1, 128, 0, 0, 0] @ ([0, 0, 0, 0] @ concat (map frame (replicate 268435455 []))
      @ [0, 0, 0, 0]) @ [128, 0, 0, 0] @ bigfield"
    by (subst (1) bigfield_split) (rule refl)
  finally show ?thesis
    by simp
qed

lemma big_payload_length: "length (buildSetPayload bigfield bigfield) = 4294967305"
  by (simp add: buildSetPayload_def length_bigfield)

text \<open>
  Claim C1 as it is stated, for every table, fails at the table of \<open>big_kv\<close>. \<^verbatim>\<open>Set\<close> has
  put its one entry there without error; the key and the value are \<open>2 ^ 31\<close> bytes each,
  both within the 32-bit length fields. \<^verbatim>\<open>Compact\<close> returns no error and no system call
  fails, but a store opened on the compacted log does not get the table back: its replay
  either stops at the first frame or fails on the nine bytes that the frame announces.
\<close>

theorem Compact_big_entry_counterexample:
  "fst (fst (Set world1 kv1 bigfield bigfield)) = None
   \<and> data big_kv = [bigfield \<mapsto> bigfield]
   \<and> fst (fst (Compact big_items big_world big_kv)) = None
   \<and> distinct (map fst big_items) \<and> map_of big_items = data big_kv
   \<and> quiet (snd (Compact big_items big_world big_kv))
   \<and> \<not> (\<exists>k2 w2. NewKV (snd (Compact big_items big_world big_kv)) ''db.log'' = (Inr k2, w2)
            \<and> data k2 = data big_kv)"
proof -
  let ?run = "Compact big_items big_world big_kv"
  let ?P = "buildSetPayload bigfield bigfield"
  let ?p9 = "[1, 128, 0, 0, 0, 0, 0, 0, 0] :: bytes"
  let ?empties = "replicate 268435455 ([] :: bytes)"
  let ?tail = "[0, 0, 0, 0, 128, 0, 0, 0] @ bigfield"
  have set_ok: "fst (fst (Set world1 kv1 bigfield bigfield)) = None"
    and tbl: "data big_kv = [bigfield \<mapsto> bigfield]" and path: "logPath big_kv = ''db.log''"
    by (simp_all add: big_kv_def Set_def writeLogEntry_def Write_def Sync_def syscall_def
        world1_def kv1_def Let_def)
  have ok: "fst (fst ?run) = None"
    by (simp add: Compact_def OpenFile_def newfd_def writeLogEntry_def Write_def Sync_def
        Close_def Rename_def OpenDir_def SyncDir_def CloseDir_def syscall_def world1_def
        big_kv_def big_world_def big_items_def kv1_def Set_def Let_def)
  have q: "quiet (snd ?run)"
    by (simp add: Compact_def OpenFile_def newfd_def writeLogEntry_def Write_def Sync_def
        Close_def Rename_def OpenDir_def SyncDir_def CloseDir_def syscall_def world1_def
        big_kv_def big_world_def big_items_def kv1_def Set_def Let_def quiet_def)
  have run: "?run = ((None, snd (fst ?run)), snd ?run)"
    using ok by (metis prod.collapse)
  from Compact_ok [OF run] obtain i where
    n: "names (snd ?run) ''db.log'' = Some i" and c: "inodes (snd ?run) i = frame ?P"
    by (auto simp: big_items_def path)
  have hdr: "frame ?P = [0, 0, 0, 9] @ PutUint32 (ChecksumIEEE ?P) @ ?P"
    by (simp add: frame_def len32_def big_payload_length PutUint32_def)
  have d: "distinct (map fst big_items)" and m: "map_of big_items = data big_kv"
    by (simp_all add: big_items_def tbl)
  have key: "data big_kv bigfield = Some bigfield"
    by (simp add: tbl)
  have "fst (NewKV (snd ?run) ''db.log'') \<noteq> Inr k2 \<or> data k2 \<noteq> data big_kv" for k2
  proof (cases "ChecksumIEEE ?p9 = ChecksumIEEE ?P")
    case True
    have "frame ?p9 = [0, 0, 0, 9] @ PutUint32 (ChecksumIEEE ?P) @ ?p9"
      by (simp add: frame_def len32_def True PutUint32_def)
    moreover have "[0, 0, 0, 9] @ PutUint32 (ChecksumIEEE ?P) @ ?P
        = ([0, 0, 0, 9] @ PutUint32 (ChecksumIEEE ?P) @ ?p9) @ concat (map frame ?empties) @ ?tail"
      by (subst (2) big_payload) simp
    ultimately have c1: "inodes (snd ?run) i = concat (map frame (?p9 # ?empties)) @ ?tail"
      unfolding c hdr by simp
    have l: "\<forall>p\<in>set (?p9 # ?empties). length p < 2 ^ 32"
      by simp
    have t: "torn ?tail"
      by (simp add: torn_def ChecksumIEEE_def length_bigfield)
    have bad: "malformed ?p9"
      by (simp add: malformed_def field_overruns_def subslice_def OpSet_def)
    have "?p9 \<in> set (?p9 # ?empties)"
      by simp
    from replay_malformed [OF this bad] obtain e where
      "replay Map.empty (?p9 # ?empties) = Inl e"
      by blast
    then have "map_sum id data (fst (NewKV (snd ?run) ''db.log'')) = Inl e"
      using NewKV_outcome [OF q n c1 l t] by simp
    then show ?thesis
      by auto
  next
    case False
    have c0: "inodes (snd ?run) i = concat (map frame []) @ frame ?P"
      by (simp add: c)
    have tk: "take 9 ?P = ?p9"
      by (subst big_payload) simp
    have t: "torn (frame ?P)"
      unfolding hdr using False by (simp add: torn_def big_payload_length tk)
    have "map_sum id data (fst (NewKV (snd ?run) ''db.log'')) = Inr Map.empty"
      using NewKV_outcome [OF q n c0 _ t] by simp
    then have "fst (NewKV (snd ?run) ''db.log'') = Inr k2 \<Longrightarrow> data k2 bigfield = None"
      by auto
    then show ?thesis
      using key by auto
  qed
  then have "\<not> (\<exists>k2 w2. NewKV (snd ?run) ''db.log'' = (Inr k2, w2) \<and> data k2 = data big_kv)"
    by fastforce
  then show ?thesis
    using set_ok tbl ok d m q by simp
qed

text \<open>
  Claim C2 (rollback before the swap), at two failing runs. The store \<open>kv3\<close> compacts its
  one entry; the directory sync after the first rename fails in the first run (the eighth
  system call), closing the log fails in the second (the tenth). Both runs return the
  error and leave the table and the log as they were, and neither removes the staging
  file \<^verbatim>\<open>db.log.compact.new\<close>, which stays behind with the compacted frame.
\<close>

theorem Compact_failure_keeps_staging_file:
  "fst (Compact [([107], [99])]
         (world3\<lparr>faults := [None, None, None, None, None, None, None, Some 0]\<rparr>) kv3)
     = (Some IOError, kv3)
   \<and> contents (snd (Compact [([107], [99])]
         (world3\<lparr>faults := [None, None, None, None, None, None, None, Some 0]\<rparr>) kv3)) ''db.log''
     = contents world3 ''db.log''
   \<and> contents (snd (Compact [([107], [99])]
         (world3\<lparr>faults := [None, None, None, None, None, None, None, Some 0]\<rparr>) kv3))
         ''db.log.compact.tmp''
     = None
   \<and> contents (snd (Compact [([107], [99])]
         (world3\<lparr>faults := [None, None, None, None, None, None, None, Some 0]\<rparr>) kv3))
         ''db.log.compact.new''
     = Some (frame (buildSetPayload [107] [99]))
   \<and> fst (Compact [([107], [99])]
         (world3\<lparr>faults := [None, None, None, None, None, None, None, None, None, Some 0]\<rparr>) kv3)
     = (Some IOError, kv3)
   \<and> contents (snd (Compact [([107], [99])]
         (world3\<lparr>faults := [None, None, None, None, None, None, None, None, None, Some 0]\<rparr>) kv3))
         ''db.log''
     = contents world3 ''db.log''
   \<and> contents (snd (Compact [([107], [99])]
         (world3\<lparr>faults := [None, None, None, None, None, None, None, None, None, Some 0]\<rparr>) kv3))
         ''db.log.compact.new''
     = Some (frame (buildSetPayload [107] [99]))"
  by (simp add: Compact_def OpenFile_def newfd_def writeLogEntry_def Write_def Sync_def
      Close_def Rename_def OpenDir_def SyncDir_def CloseDir_def syscall_def world3_def
      world1_def kv3_def kv1_def Let_def contents_def frame_def)

section \<open>Deleting an absent key\<close>

lemma ReadFull_length: "ReadFull w f n = (Inr b, w') \<Longrightarrow> length b = n"
  by (auto simp: ReadFull_def Let_def split: if_splits option.splits prod.splits)

text \<open>Whatever the file holds, a payload that \<^verbatim>\<open>readLog\<close> returns is shorter than \<open>2 ^ 32\<close>.\<close>

lemma readLog_loop_lengths:
  assumes "readLog_loop w f acc = ((res, err), w')" and "\<forall>p\<in>set acc. length p < 2 ^ 32"
  shows "\<forall>p\<in>set res. length p < 2 ^ 32"
  using assms
proof (induction w f acc arbitrary: res err w' rule: readLog_loop.induct)
  case (1 w f results)
  obtain r w1 where r1: "ReadFull w f 8 = (r, w1)"
    by (cases "ReadFull w f 8")
  show ?case
  proof (cases r)
    case (Inl e)
    then have "res = results"
      using "1.prems"(1) r1 by (subst (asm) readLog_loop.simps) (auto split: if_splits)
    then show ?thesis
      using "1.prems"(2) by simp
  next
    case (Inr hdr)
    let ?size = "unat (Uint32 (subslice hdr 0 4))"
    obtain r2 w2 where r2: "ReadFull w1 f ?size = (r2, w2)"
      by (cases "ReadFull w1 f ?size")
    show ?thesis
    proof (cases r2)
      case (Inl e)
      then have "res = results"
        using "1.prems"(1) r1 r2 Inr by (subst (asm) readLog_loop.simps) (auto simp: Let_def)
      then show ?thesis
        using "1.prems"(2) by simp
    next
      case payload: (Inr payload)
      show ?thesis
      proof (cases "ChecksumIEEE payload \<noteq> Uint32 (subslice hdr 4 8)")
        case True
        then have "res = results"
          using "1.prems"(1) r1 r2 Inr payload
          by (subst (asm) readLog_loop.simps) (auto simp: Let_def)
        then show ?thesis
          using "1.prems"(2) by simp
      next
        case False
        have rec: "readLog_loop w2 f (results @ [payload]) = ((res, err), w')"
          using "1.prems"(1) r1 r2 Inr payload False
          by (subst (asm) readLog_loop.simps) (auto simp: Let_def)
        have "length payload = ?size"
          using r2 payload ReadFull_length by blast
        moreover have "?size < 2 ^ 32"
          using unsigned_less [of "Uint32 (subslice hdr 0 4)", where ?'a = nat] by simp
        ultimately have acc: "\<forall>p\<in>set (results @ [payload]). length p < 2 ^ 32"
          using "1.prems"(2) by auto
        show ?thesis
          using "1.IH" [OF r1 [symmetric] Inr refl refl r2 [symmetric] payload _ rec acc] False
          by simp
      qed
    qed
  qed
qed

lemma decode_Delete_length:
  assumes "decode p = Inr (DeleteRecord key)"
  shows "5 + length key \<le> length p"
  using assms
  by (auto simp: decode_def Let_def subslice_def split: if_splits)

lemma length_longkey: "length longkey = 4294967291"
  by (simp add: longkey_def)

lemma delete_payload:
  "buildDelPayload key = 2 # PutUint32 (word_of_nat (length key)) @ key"
  by (simp add: buildDelPayload_def OpDel_def len32_def)

text \<open>
  Claim C9 (idempotent delete), for keys whose tombstone fits a frame. Let the table of
  an open store not hold the key, let \<open>5 + len(key) < 2 ^ 32\<close>, and let no system call
  fail. Then \<^verbatim>\<open>Del\<close> returns no error. The log has grown by exactly one frame: the length
  \<open>5 + len(key)\<close> and the CRC-32 of the payload, then the payload, which is the byte \<open>2\<close>,
  the length of the key in four big-endian bytes, and the key; both length fields read
  back as the lengths they stand for, and the payload decodes as the delete record of the
  key. When the log held whole frames before, a store opened on it afterwards reads their
  payloads and then this one. The table is as it was, and \<^verbatim>\<open>Get\<close> of the key still finds
  nothing.
\<close>

theorem Del_absent_key:
  assumes "data k key = None" and "open_store w k" and "quiet w"
    and "5 + length key < 2 ^ 32"
  shows "\<exists>k' w' old p.
           Del w k key = ((None, k'), w')
         \<and> p = 2 # PutUint32 (word_of_nat (length key)) @ key
         \<and> contents w (logPath k) = Some old
         \<and> contents w' (logPath k)
             = Some (old @ PutUint32 (word_of_nat (length p)) @ PutUint32 (ChecksumIEEE p) @ p)
         \<and> length p = 5 + length key
         \<and> unat (Uint32 (PutUint32 (word_of_nat (length p)))) = length p
         \<and> unat (Uint32 (PutUint32 (word_of_nat (length key)))) = length key
         \<and> map unat (PutUint32 (word_of_nat (length key))) =
             [length key div 2 ^ 24 mod 256, length key div 2 ^ 16 mod 256,
              length key div 2 ^ 8 mod 256, length key mod 256]
         \<and> decode p = Inr (DeleteRecord key)
         \<and> (\<forall>ps. old = concat (map frame ps) \<and> list_all (\<lambda>q. length q < 2 ^ 32) ps \<longrightarrow>
               (\<exists>w1 w2.
                  OpenFile w' (logPath k)
                    \<lparr>O_CREATE = True, O_EXCL = False, O_TRUNC = False, O_APPEND = False\<rparr>
                    = (Inr (nextfd w'), w1)
                  \<and> readLog w1 (nextfd w') = ((ps @ [p], None), w2)))
         \<and> Get k' key = None \<and> data k' = data k"
proof -
  let ?p = "2 # PutUint32 (word_of_nat (length key)) @ key"
  have p: "buildDelPayload key = ?p"
    by (rule delete_payload)
  have lp: "length ?p = 5 + length key"
    by simp
  have lk: "length key < 2 ^ 32"
    using assms(4) by simp
  have np: "unat (word_of_nat (length ?p) :: uint32) = length ?p"
    using assms(4) unat_of_nat [of "length ?p", where ?'a = 32] by simp
  have nk: "unat (word_of_nat (length key) :: uint32) = length key"
    using lk unat_of_nat [of "length key", where ?'a = 32] by simp
  have bytes: "map unat (PutUint32 (word_of_nat (length key))) =
      [length key div 2 ^ 24 mod 256, length key div 2 ^ 16 mod 256,
       length key div 2 ^ 8 mod 256, length key mod 256]"
    using PutUint32_bytes [of "word_of_nat (length key)"] by (simp only: nk)
  have dec: "decode ?p = Inr (DeleteRecord key)"
    using decode_Del [OF lk] by (simp only: p)
  have fr: "frame ?p = PutUint32 (word_of_nat (length ?p)) @ PutUint32 (ChecksumIEEE ?p) @ ?p"
    by (simp only: frame_def len32_def)
  from assms(2) obtain d where d: "fds w (log k) = Some d"
    and n: "names w (logPath k) = Some (dino d)" and e: "at_end w d"
    by (auto simp: open_store_def split: option.splits)
  obtain w' where run: "writeLogEntry w (log k) ?p = (None, w')" and q': "quiet w'"
    using writeLogEntry_quiet [OF assms(3) d e] by blast
  note eff = writeLogEntry_ok [OF run d e]
  let ?old = "inodes w (dino d)"
  have del: "Del w k key = ((None, k\<lparr>data := (data k)(key := None)\<rparr>), w')"
    using run by (simp add: Del_def p)
  have same: "(data k)(key := None) = data k"
    using assms(1) by auto
  have c0: "contents w (logPath k) = Some ?old"
    using n by (simp add: contents_def)
  have n': "names w' (logPath k) = Some (dino d)" and i': "inodes w' (dino d) = ?old @ frame ?p"
    using n by (simp_all add: eff)
  have c1: "contents w' (logPath k)
      = Some (?old @ PutUint32 (word_of_nat (length ?p)) @ PutUint32 (ChecksumIEEE ?p) @ ?p)"
    using n' i' fr by (simp add: contents_def)
  have reread: "\<exists>w1 w2.
      OpenFile w' (logPath k)
        \<lparr>O_CREATE = True, O_EXCL = False, O_TRUNC = False, O_APPEND = False\<rparr>
        = (Inr (nextfd w'), w1)
      \<and> readLog w1 (nextfd w') = ((ps @ [?p], None), w2)"
    if "?old = concat (map frame ps)" and "list_all (\<lambda>q. length q < 2 ^ 32) ps" for ps
  proof -
    have c: "inodes w' (dino d) = concat (map frame (ps @ [?p])) @ []"
      using i' that(1) by simp
    have l: "\<forall>q\<in>set (ps @ [?p]). length q < 2 ^ 32"
      using that(2) assms(4) by (auto simp: list_all_iff)
    have t: "torn []"
      by (simp add: torn_def)
    from open_and_read [OF q' n' c l t] show ?thesis
      by blast
  qed
  show ?thesis
    using del same c0 c1 lp np nk bytes dec reread assms(1)
    by (simp add: Get_def)
qed

theorem Del_absent_key_witness:
  "data kv1 [97] = None \<and> open_store world1 kv1 \<and> quiet world1
   \<and> fst (fst (Del world1 kv1 [97])) = None
   \<and> contents (snd (Del world1 kv1 [97])) ''db.log''
       = Some ([0, 0, 0, 6] @ PutUint32 (ChecksumIEEE [2, 0, 0, 0, 1, 97]) @ [2, 0, 0, 0, 1, 97])
   \<and> decode [2, 0, 0, 0, 1, 97] = Inr (DeleteRecord [97])
   \<and> (\<exists>w1 w2.
         OpenFile (snd (Del world1 kv1 [97])) ''db.log''
           \<lparr>O_CREATE = True, O_EXCL = False, O_TRUNC = False, O_APPEND = False\<rparr> = (Inr 4, w1)
         \<and> readLog w1 4 = (([[2, 0, 0, 0, 1, 97]], None), w2))
   \<and> Get (snd (fst (Del world1 kv1 [97]))) [97] = None"
proof -
  have a: "data kv1 [97] = None" and b: "open_store world1 kv1" and c: "quiet world1"
    by (simp_all add: kv1_def world1_def open_store_def at_end_def quiet_def)
  have l: "5 + length [97 :: byte] < 2 ^ 32"
    by simp
  have old: "contents world1 (logPath kv1) = Some (concat (map frame []))"
    by (simp add: contents_def world1_def kv1_def)
  have fd: "nextfd (snd (Del world1 kv1 [97])) = 4"
    by (simp add: Del_def writeLogEntry_def Write_def Sync_def syscall_def world1_def Let_def)
  have len: "PutUint32 (6 :: uint32) = [0, 0, 0, 6]" "PutUint32 (1 :: uint32) = [0, 0, 0, 1]"
    by (simp_all add: PutUint32_def)
  from Del_absent_key [OF a b c l] obtain k' w' old' where
    run: "Del world1 kv1 [97] = ((None, k'), w')"
    and c0: "contents world1 (logPath kv1) = Some old'"
    and c1: "contents w' (logPath kv1)
      = Some (old' @ [0, 0, 0, 6] @ PutUint32 (ChecksumIEEE [2, 0, 0, 0, 1, 97])
          @ [2, 0, 0, 0, 1, 97])"
    and dec: "decode [2, 0, 0, 0, 1, 97] = Inr (DeleteRecord [97])"
    and reread: "\<forall>ps. old' = concat (map frame ps) \<and> list_all (\<lambda>q. length q < 2 ^ 32) ps \<longrightarrow>
       (\<exists>w1 w2.
          OpenFile w' (logPath kv1)
            \<lparr>O_CREATE = True, O_EXCL = False, O_TRUNC = False, O_APPEND = False\<rparr>
            = (Inr (nextfd w'), w1)
          \<and> readLog w1 (nextfd w') = ((ps @ [[2, 0, 0, 0, 1, 97]], None), w2))"
    and get: "Get k' [97] = None"
    by (auto simp: len)
  have o: "old' = concat (map frame [])"
    using c0 old by simp
  from reread [rule_format, of "[]"] o obtain w1 w2 where
    "OpenFile w' (logPath kv1)
       \<lparr>O_CREATE = True, O_EXCL = False, O_TRUNC = False, O_APPEND = False\<rparr>
       = (Inr (nextfd w'), w1)"
    "readLog w1 (nextfd w') = (([[2, 0, 0, 0, 1, 97]], None), w2)"
    by auto
  then show ?thesis
    using a b c run c1 dec get fd o by (auto simp: kv1_def)
qed

text \<open>
  Claim C9 as it is stated, for every key, fails at \<open>longkey\<close>, a key of \<open>2 ^ 32 - 5\<close>
  bytes that the empty table of \<open>kv1\<close> does not hold. \<^verbatim>\<open>Del\<close> returns no error, but the
  delete payload is \<open>2 ^ 32\<close> bytes long and the frame written for it announces the length
  \<open>0\<close>. What the log has grown by is the frame of no payload that a frame can announce,
  and a store opened on the log afterwards reads no payload that decodes as the delete
  record of the key.
\<close>

theorem Del_long_key_counterexample:
  "data kv1 longkey = None \<and> open_store world1 kv1 \<and> quiet world1
   \<and> length longkey < 2 ^ 32
   \<and> fst (fst (Del world1 kv1 longkey)) = None
   \<and> map_option (take 4) (contents (snd (Del world1 kv1 longkey)) ''db.log'') = Some [0, 0, 0, 0]
   \<and> \<not> (\<exists>p. length p < 2 ^ 32
            \<and> contents (snd (Del world1 kv1 longkey)) ''db.log'' = Some (frame p))
   \<and> fst (OpenFile (snd (Del world1 kv1 longkey)) ''db.log''
        \<lparr>O_CREATE = True, O_EXCL = False, O_TRUNC = False, O_APPEND = False\<rparr>) = Inr 4
   \<and> \<not> (\<exists>p. p \<in> set (fst (fst (readLog
              (snd (OpenFile (snd (Del world1 kv1 longkey)) ''db.log''
                 \<lparr>O_CREATE = True, O_EXCL = False, O_TRUNC = False, O_APPEND = False\<rparr>)) 4)))
            \<and> decode p = Inr (DeleteRecord longkey))"
proof -
  let ?P = "buildDelPayload longkey"
  let ?W = "snd (Del world1 kv1 longkey)"
  let ?fl = "\<lparr>O_CREATE = True, O_EXCL = False, O_TRUNC = False, O_APPEND = False\<rparr>"
  have a: "data kv1 longkey = None" and b: "open_store world1 kv1" and c: "quiet world1"
    by (simp_all add: kv1_def world1_def open_store_def at_end_def quiet_def)
  have lk: "length longkey < 2 ^ 32"
    by (simp add: length_longkey)
  have lP: "length ?P = 4294967296"
    by (simp add: buildDelPayload_def length_longkey)
  have ok: "fst (fst (Del world1 kv1 longkey)) = None"
    by (simp add: Del_def writeLogEntry_def Write_def Sync_def syscall_def world1_def kv1_def
        Let_def)
  have cont: "contents ?W ''db.log'' = Some ([0, 0, 0, 0] @ PutUint32 (ChecksumIEEE ?P) @ ?P)"
    by (simp add: Del_def writeLogEntry_def Write_def Sync_def syscall_def world1_def kv1_def
        Let_def contents_def len32_def lP PutUint32_def)
  have hd4: "map_option (take 4) (contents ?W ''db.log'') = Some [0, 0, 0, 0]"
    by (simp add: cont)
  have noframe: "\<not> (\<exists>p. length p < 2 ^ 32 \<and> contents ?W ''db.log'' = Some (frame p))"
  proof
    assume "\<exists>p. length p < 2 ^ 32 \<and> contents ?W ''db.log'' = Some (frame p)"
    then obtain p where p: "length p < 2 ^ 32"
      and eq: "[0, 0, 0, 0] @ PutUint32 (ChecksumIEEE ?P) @ ?P = frame p"
      using cont by auto
    have "length ([0, 0, 0, 0] @ PutUint32 (ChecksumIEEE ?P) @ ?P) = length (frame p)"
      using eq by simp
    then show False
      using p by (simp add: lP length_frame)
  qed
  have op: "fst (OpenFile ?W ''db.log'' ?fl) = Inr 4"
    by (simp add: OpenFile_def newfd_def Del_def writeLogEntry_def Write_def Sync_def
        syscall_def world1_def kv1_def Let_def)
  have noread: "\<not> (\<exists>p. p \<in> set (fst (fst (readLog (snd (OpenFile ?W ''db.log'' ?fl)) 4)))
      \<and> decode p = Inr (DeleteRecord longkey))"
  proof
    assume "\<exists>p. p \<in> set (fst (fst (readLog (snd (OpenFile ?W ''db.log'' ?fl)) 4)))
      \<and> decode p = Inr (DeleteRecord longkey)"
    then obtain p where m: "p \<in> set (fst (fst (readLog (snd (OpenFile ?W ''db.log'' ?fl)) 4)))"
      and dec: "decode p = Inr (DeleteRecord longkey)"
      by blast
    obtain res err w' where r: "readLog_loop (snd (OpenFile ?W ''db.log'' ?fl)) 4 [] = ((res, err), w')"
      by (metis prod.collapse)
    have "\<forall>p\<in>set res. length p < 2 ^ 32"
      using readLog_loop_lengths [OF r] by simp
    then have "length p < 2 ^ 32"
      using m r by (simp add: readLog_def)
    moreover have "5 + length longkey \<le> length p"
      using decode_Delete_length [OF dec] .
    ultimately show False
      by (simp add: length_longkey)
  qed
  show ?thesis
    using a b c lk ok hd4 noframe op noread by blast
qed

end
